theory Spec2Isabelle
  imports Complex_Main "HOL-Library.Multiset"
begin

section \<open>Geometry values\<close>

text \<open>
  A \<^verbatim>\<open>THREE.Vector3\<close> is a triple of JavaScript numbers. The coordinates are taken
  as real numbers: every arithmetic step of the source is read as the exact operation,
  and \<^verbatim>\<open>Math.sqrt\<close>, \<^verbatim>\<open>Math.sin\<close>, \<^verbatim>\<open>Math.cos\<close> and \<^verbatim>\<open>Math.atan2\<close> as the
  functions they approximate. The selectors keep the field names of the source.
  A value that may be \<^verbatim>\<open>undefined\<close> has an option type, \<open>None\<close> for \<^verbatim>\<open>undefined\<close>.
\<close>

datatype Vector3 = Vector3 (x: real) (y: real) (z: real)

text \<open>The operations of three.js on vectors that the repository calls:
  \<^verbatim>\<open>dot\<close>, \<^verbatim>\<open>distanceToSquared\<close>, \<^verbatim>\<open>distanceTo\<close>, \<^verbatim>\<open>Line3.delta\<close> and
  \<^verbatim>\<open>addScaledVector\<close>.\<close>

definition dot :: "Vector3 \<Rightarrow> Vector3 \<Rightarrow> real" where
  "dot u v = x u * x v + y u * y v + z u * z v"

definition distanceToSquared :: "Vector3 \<Rightarrow> Vector3 \<Rightarrow> real" where
  "distanceToSquared u v =
     (x u - x v) * (x u - x v) + (y u - y v) * (y u - y v) + (z u - z v) * (z u - z v)"

definition distanceTo :: "Vector3 \<Rightarrow> Vector3 \<Rightarrow> real" where
  "distanceTo u v = sqrt (distanceToSquared u v)"

definition delta :: "Vector3 \<Rightarrow> Vector3 \<Rightarrow> Vector3" where
  "delta lineStart lineEnd =
     Vector3 (x lineEnd - x lineStart) (y lineEnd - y lineStart) (z lineEnd - z lineStart)"

definition addScaledVector :: "Vector3 \<Rightarrow> Vector3 \<Rightarrow> real \<Rightarrow> Vector3" where
  "addScaledVector u v s = Vector3 (x u + x v * s) (y u + y v * s) (z u + z v * s)"

text \<open>A \<^verbatim>\<open>THREE.Plane\<close>: the points \<open>p\<close> with \<open>dot normal p + constant = 0\<close>.
  \<^verbatim>\<open>setFromNormalAndCoplanarPoint\<close> copies the normal and sets the constant to the
  negated dot product of point and normal. The field \<^verbatim>\<open>constant\<close> is \<open>plane_constant\<close>
  here, \<open>constant\<close> being a keyword.\<close>

datatype Plane = Plane (normal: Vector3) (plane_constant: real)

definition setFromNormalAndCoplanarPoint :: "Vector3 \<Rightarrow> Vector3 \<Rightarrow> Plane" where
  "setFromNormalAndCoplanarPoint n point = Plane n (- dot point n)"

definition distanceToPoint :: "Plane \<Rightarrow> Vector3 \<Rightarrow> real" where
  "distanceToPoint pl point = dot (normal pl) point + plane_constant pl"

text \<open>
  \<^verbatim>\<open>Plane.intersectLine(line, target)\<close> of three.js, the line given by its two ends:
  a line with no component along the normal yields its start when the start lies on the
  plane and \<^verbatim>\<open>null\<close> otherwise; else the parameter \<open>t\<close> of the crossing is computed,
  and the crossing is returned when \<open>0 \<le> t \<le> 1\<close>.
\<close>

definition intersectLine :: "Plane \<Rightarrow> Vector3 \<Rightarrow> Vector3 \<Rightarrow> Vector3 option" where
  "intersectLine pl lineStart lineEnd =
     (let direction = delta lineStart lineEnd;
          denominator = dot (normal pl) direction
      in if denominator = 0
         then (if distanceToPoint pl lineStart = 0 then Some lineStart else None)
         else
           (let t = - (dot lineStart (normal pl) + plane_constant pl) / denominator
            in if t < 0 \<or> t > 1 then None
               else Some (addScaledVector lineStart direction t)))"

text \<open>A \<^verbatim>\<open>THREE.Box3\<close> and \<^verbatim>\<open>Plane.intersectsBox\<close>: the least and the greatest value
  of \<open>dot normal p\<close> over the box are compared with the negated constant.\<close>

datatype Box3 = Box3 (box_min: Vector3) (box_max: Vector3)

definition intersectsBox :: "Plane \<Rightarrow> Box3 \<Rightarrow> bool" where
  "intersectsBox pl box =
     (let n = normal pl; lo = box_min box; hi = box_max box;
          minX = (if x n > 0 then x n * x lo else x n * x hi);
          maxX = (if x n > 0 then x n * x hi else x n * x lo);
          minY = (if y n > 0 then y n * y lo else y n * y hi);
          maxY = (if y n > 0 then y n * y hi else y n * y lo);
          minZ = (if z n > 0 then z n * z lo else z n * z hi);
          maxZ = (if z n > 0 then z n * z hi else z n * z lo)
      in minX + minY + minZ \<le> - plane_constant pl \<and> maxX + maxY + maxZ \<ge> - plane_constant pl)"

text \<open>
  \<^verbatim>\<open>Vector3.applyAxisAngle(axis, angle)\<close> of three.js: the quaternion of the rotation
  is \<open>(axis * sin (angle / 2), cos (angle / 2))\<close>, and \<^verbatim>\<open>applyQuaternion\<close> rotates the
  vector by it. In the source the vector object itself is overwritten; here the new
  value is returned, and the caller writes it back to the object store.
\<close>

definition applyQuaternion :: "real \<times> real \<times> real \<times> real \<Rightarrow> Vector3 \<Rightarrow> Vector3" where
  "applyQuaternion q v =
     (case q of (qx, qy, qz, qw) \<Rightarrow>
        let tx = 2 * (qy * z v - qz * y v);
            ty = 2 * (qz * x v - qx * z v);
            tz = 2 * (qx * y v - qy * x v)
        in Vector3 (x v + qw * tx + qy * tz - qz * ty)
                   (y v + qw * ty + qz * tx - qx * tz)
                   (z v + qw * tz + qx * ty - qy * tx))"

definition setFromAxisAngle :: "Vector3 \<Rightarrow> real \<Rightarrow> real \<times> real \<times> real \<times> real" where
  "setFromAxisAngle axis angle =
     (let halfAngle = angle / 2; s = sin halfAngle
      in (x axis * s, y axis * s, z axis * s, cos halfAngle))"

definition applyAxisAngle :: "Vector3 \<Rightarrow> real \<Rightarrow> Vector3 \<Rightarrow> Vector3" where
  "applyAxisAngle axis angle v = applyQuaternion (setFromAxisAngle axis angle) v"

text \<open>\<^verbatim>\<open>Math.atan2(y, x)\<close> on real numbers: the angle of the point \<open>(x, y)\<close> in
  \<open>(-\<pi>, \<pi>]\<close>, and \<open>0\<close> at the origin.\<close>

definition atan2 :: "real \<Rightarrow> real \<Rightarrow> real" where
  "atan2 yy xx =
     (if xx > 0 then arctan (yy / xx)
      else if xx < 0 then (if yy \<ge> 0 then arctan (yy / xx) + pi else arctan (yy / xx) - pi)
      else if yy > 0 then pi / 2
      else if yy < 0 then - pi / 2
      else 0)"

text \<open>The errors the modelled code can end with: a \<^verbatim>\<open>TypeError\<close> thrown on reading a
  property of \<^verbatim>\<open>undefined\<close>, and a loop that does not return.\<close>

datatype error = TypeError | Diverges

section \<open>ClipPlane\<close>

text \<open>A segment \<^verbatim>\<open>{ start, end }\<close>; \<open>end\<close> is a keyword, hence the prefix.\<close>

datatype 'p segment = Segment (seg_start: 'p) (seg_end: 'p)

subsection \<open>stitchSegments\<close>

text \<open>
  The loop variables of \<^verbatim>\<open>stitchSegments\<close> are the growing \<^verbatim>\<open>polyline\<close>, the
  \<^verbatim>\<open>used\<close> flags and the \<^verbatim>\<open>extended\<close> flag. The body of the inner \<^verbatim>\<open>for\<close> loop
  at index \<open>j\<close> is \<open>scanStep\<close>: the four tests are tried in the order of the source,
  \<^verbatim>\<open>push\<close> appends and \<^verbatim>\<open>unshift\<close> prepends. The point comparison \<^verbatim>\<open>samePoint\<close> is
  the parameter \<open>same\<close>, so that the loops are defined for every point type.
  The polyline holds two points when the loop starts and only grows, so
  \<^verbatim>\<open>polyline[polyline.length - 1]\<close> and \<^verbatim>\<open>polyline[0]\<close> always exist.
\<close>

definition scanStep ::
  "('p \<Rightarrow> 'p \<Rightarrow> bool) \<Rightarrow> 'p segment list \<Rightarrow> nat \<Rightarrow>
     'p list \<times> bool list \<times> bool \<Rightarrow> 'p list \<times> bool list \<times> bool" where
  "scanStep same segments j st =
     (case st of (polyline, used, extended) \<Rightarrow>
        if used ! j then st
        else if same (last polyline) (seg_start (segments ! j))
          then (polyline @ [seg_end (segments ! j)], used[j := True], True)
        else if same (last polyline) (seg_end (segments ! j))
          then (polyline @ [seg_start (segments ! j)], used[j := True], True)
        else if same (hd polyline) (seg_end (segments ! j))
          then (seg_start (segments ! j) # polyline, used[j := True], True)
        else if same (hd polyline) (seg_start (segments ! j))
          then (seg_end (segments ! j) # polyline, used[j := True], True)
        else st)"

text \<open>One pass of \<^verbatim>\<open>for (let j = 0; j < segments.length; j++)\<close>, entered with
  \<^verbatim>\<open>extended = false\<close>.\<close>

definition scanPass ::
  "('p \<Rightarrow> 'p \<Rightarrow> bool) \<Rightarrow> 'p segment list \<Rightarrow> 'p list \<times> bool list \<Rightarrow>
     'p list \<times> bool list \<times> bool" where
  "scanPass same segments st =
     fold (scanStep same segments) [0..<length segments] (fst st, snd st, False)"

text \<open>
  \<^verbatim>\<open>while (extended) { extended = false; for ... }\<close>, entered with
  \<^verbatim>\<open>extended = true\<close>: a pass is run, and the loop repeats while the pass has set the
  flag. Nothing in the loop bounds the number of passes, so the loop is a partial
  function: \<open>None\<close> stands for a run that does not end.
\<close>

partial_function (option) extendLoop ::
  "('p \<Rightarrow> 'p \<Rightarrow> bool) \<Rightarrow> 'p segment list \<Rightarrow> 'p list \<times> bool list \<Rightarrow>
     ('p list \<times> bool list) option" where
  "extendLoop same segments st =
     (case scanPass same segments st of
        (polyline, used, extended) \<Rightarrow>
          if extended then extendLoop same segments (polyline, used)
          else Some (polyline, used))"

text \<open>The body of the outer loop at index \<open>i\<close>: skip a used segment, otherwise seed a
  polyline with its two endpoints, mark it, extend, and push the polyline.\<close>

definition seedStep ::
  "('p \<Rightarrow> 'p \<Rightarrow> bool) \<Rightarrow> 'p segment list \<Rightarrow> nat \<Rightarrow>
     'p list list \<times> bool list \<Rightarrow> ('p list list \<times> bool list) option" where
  "seedStep same segments i st =
     (case st of (stitched, used) \<Rightarrow>
        if used ! i then Some (stitched, used)
        else
          (case extendLoop same segments
                  ([seg_start (segments ! i), seg_end (segments ! i)], used[i := True]) of
             None \<Rightarrow> None
           | Some (polyline, used') \<Rightarrow> Some (stitched @ [polyline], used')))"

fun seedLoop ::
  "('p \<Rightarrow> 'p \<Rightarrow> bool) \<Rightarrow> 'p segment list \<Rightarrow> nat list \<Rightarrow>
     'p list list \<times> bool list \<Rightarrow> ('p list list \<times> bool list) option" where
  "seedLoop same segments [] st = Some st"
| "seedLoop same segments (i # is) st =
     (case seedStep same segments i st of
        None \<Rightarrow> None
      | Some st' \<Rightarrow> seedLoop same segments is st')"

text \<open>The whole function for an arbitrary point comparison.\<close>

definition stitchBy ::
  "('p \<Rightarrow> 'p \<Rightarrow> bool) \<Rightarrow> 'p segment list \<Rightarrow> 'p list list option" where
  "stitchBy same segments =
     map_option fst
       (seedLoop same segments [0..<length segments]
          ([], replicate (length segments) False))"

text \<open>\<^verbatim>\<open>samePoint(a, b)\<close> of the source, and \<^verbatim>\<open>stitchSegments(segments, tolerance)\<close>
  with its default tolerance \<^verbatim>\<open>1e-6\<close>.\<close>

definition samePoint :: "real \<Rightarrow> Vector3 \<Rightarrow> Vector3 \<Rightarrow> bool" where
  "samePoint tolerance a b \<longleftrightarrow> distanceTo a b < tolerance"

definition stitchSegments :: "Vector3 segment list \<Rightarrow> real \<Rightarrow> Vector3 list list option" where
  "stitchSegments segments tolerance = stitchBy (samePoint tolerance) segments"

definition defaultTolerance :: real where
  "defaultTolerance = 1 / 1000000"

subsection \<open>getContourPlaneIntersection\<close>

text \<open>
  The body of \<^verbatim>\<open>for (let i = 0; i < contourPoints.length - 1; i++)\<close>: the signed
  distances of the two ends of the edge are compared with zero, and the crossing that
  \<^verbatim>\<open>intersectLine\<close> returns, if any, is pushed.
\<close>

definition straddles :: "Plane \<Rightarrow> Vector3 \<Rightarrow> Vector3 \<Rightarrow> bool" where
  "straddles secondPlane lineStart lineEnd =
     (let distStart = distanceToPoint secondPlane lineStart;
          distEnd = distanceToPoint secondPlane lineEnd
      in (distStart \<ge> 0 \<and> distEnd \<le> 0) \<or> (distStart \<le> 0 \<and> distEnd \<ge> 0))"

definition contourStep :: "Plane \<Rightarrow> Vector3 list \<Rightarrow> nat \<Rightarrow> Vector3 list \<Rightarrow> Vector3 list" where
  "contourStep secondPlane contourPoints i intersections =
     (let lineStart = contourPoints ! i; lineEnd = contourPoints ! (i + 1)
      in if straddles secondPlane lineStart lineEnd
         then (case intersectLine secondPlane lineStart lineEnd of
                 Some tempPoint \<Rightarrow> intersections @ [tempPoint]
               | None \<Rightarrow> intersections)
         else intersections)"

text \<open>The argument is \<open>None\<close> when the caller passes \<^verbatim>\<open>undefined\<close>; reading
  \<^verbatim>\<open>contourPoints.length\<close> then throws. For an empty array \<^verbatim>\<open>length - 1\<close> is \<open>-1\<close>
  and the loop body never runs, as with the truncated subtraction here.\<close>

definition getContourPlaneIntersection ::
  "Vector3 list option \<Rightarrow> Plane \<Rightarrow> error + Vector3 list" where
  "getContourPlaneIntersection contourPoints secondPlane =
     (case contourPoints of
        None \<Rightarrow> Inl TypeError
      | Some pts \<Rightarrow> Inr (fold (contourStep secondPlane pts) [0..<length pts - 1] []))"

subsection \<open>getIntersectionContour\<close>

text \<open>
  A triangle handed to the callback \<^verbatim>\<open>intersectsTriangle\<close>. The callback clears
  \<^verbatim>\<open>points\<close>, pushes the crossing of each of the three edges that has one, removes one
  point when there are three, and pushes a segment when two points are left.
  \<^verbatim>\<open>points.splice(i, 1)\<close> removes the element at index \<open>i\<close>.
\<close>

datatype Triangle = Triangle (tri_a: Vector3) (tri_b: Vector3) (tri_c: Vector3)

definition triangleEdges :: "Triangle \<Rightarrow> (Vector3 \<times> Vector3) list" where
  "triangleEdges tri = [(tri_a tri, tri_b tri), (tri_b tri, tri_c tri), (tri_c tri, tri_a tri)]"

definition edgeStep :: "Plane \<Rightarrow> Vector3 \<times> Vector3 \<Rightarrow> Vector3 list \<Rightarrow> Vector3 list" where
  "edgeStep localPlane edge pts =
     (case intersectLine localPlane (fst edge) (snd edge) of
        Some tempPoint \<Rightarrow> pts @ [tempPoint]
      | None \<Rightarrow> pts)"

definition collectPoints :: "Plane \<Rightarrow> Triangle \<Rightarrow> Vector3 list" where
  "collectPoints localPlane tri = fold (edgeStep localPlane) (triangleEdges tri) []"

definition splice1 :: "nat \<Rightarrow> 'a list \<Rightarrow> 'a list" where
  "splice1 i xs = take i xs @ drop (i + 1) xs"

definition dedupTolerance :: real where
  "dedupTolerance = 1 / 100000"

definition deduplicate :: "Vector3 list \<Rightarrow> Vector3 list" where
  "deduplicate pts =
     (if length pts = 3 then
        (if distanceTo (pts ! 0) (pts ! 1) < dedupTolerance then splice1 1 pts
         else if distanceTo (pts ! 1) (pts ! 2) < dedupTolerance then splice1 2 pts
         else splice1 0 pts)
      else pts)"

text \<open>The matrix \<^verbatim>\<open>mesh.matrixWorld\<close> enters through two of its actions:
  \<open>toWorld\<close> is \<^verbatim>\<open>applyMatrix4(mesh.matrixWorld)\<close> on points, and \<open>planeToLocal\<close> is
  \<^verbatim>\<open>applyMatrix4\<close> of its inverse on planes.\<close>

definition intersectsTriangle ::
  "(Vector3 \<Rightarrow> Vector3) \<Rightarrow> Plane \<Rightarrow> Triangle \<Rightarrow> Vector3 segment list" where
  "intersectsTriangle toWorld localPlane tri =
     (let pts = deduplicate (collectPoints localPlane tri)
      in if length pts = 2 then [Segment (toWorld (pts ! 0)) (toWorld (pts ! 1))] else [])"

text \<open>
  The bounds tree of three-mesh-bvh: a leaf holds triangles, every node a bounding box.
  \<^verbatim>\<open>shapecast\<close> starts at the root, whose box it does not test. At an inner node it
  calls \<^verbatim>\<open>intersectsBounds\<close> on the box of each child, the left child first, and
  descends into a child whose box is accepted; the callback here returns a boolean, so
  an accepted box is never taken as contained and the boxes below it are tested in
  turn. The triangles of a leaf that is reached are handed to \<^verbatim>\<open>intersectsTriangle\<close>,
  which here never stops the traversal (it returns nothing). \<open>shapecast\<close> lists the
  triangles handed over, in order.
\<close>

datatype MeshBVH = Leaf Box3 "Triangle list" | Node Box3 MeshBVH MeshBVH

fun bounds :: "MeshBVH \<Rightarrow> Box3" where
  "bounds (Leaf box tris) = box"
| "bounds (Node box l r) = box"

fun shapecast :: "(Box3 \<Rightarrow> bool) \<Rightarrow> MeshBVH \<Rightarrow> Triangle list" where
  "shapecast intersectsBounds (Leaf box tris) = tris"
| "shapecast intersectsBounds (Node box l r) =
     (if intersectsBounds (bounds l) then shapecast intersectsBounds l else []) @
     (if intersectsBounds (bounds r) then shapecast intersectsBounds r else [])"

datatype Mesh = Mesh (boundsTree: MeshBVH) (toWorld: "Vector3 \<Rightarrow> Vector3")
  (planeToLocal: "Plane \<Rightarrow> Plane")

definition contourSegments :: "Mesh \<Rightarrow> Plane \<Rightarrow> Vector3 segment list" where
  "contourSegments mesh pl =
     (let localPlane = planeToLocal mesh pl
      in concat (map (intersectsTriangle (toWorld mesh) localPlane)
           (shapecast (intersectsBox localPlane) (boundsTree mesh))))"

text \<open>\<^verbatim>\<open>return stichedContour[0]\<close>: the first polyline, \<^verbatim>\<open>undefined\<close> when there is
  none.\<close>

definition getIntersectionContour :: "Mesh \<Rightarrow> Plane \<Rightarrow> error + Vector3 list option" where
  "getIntersectionContour mesh pl =
     (case stitchSegments (contourSegments mesh pl) defaultTolerance of
        None \<Rightarrow> Inl Diverges
      | Some stichedContour \<Rightarrow>
          Inr (case stichedContour of [] \<Rightarrow> None | polyline # rest \<Rightarrow> Some polyline))"

section \<open>Utils\<close>

text \<open>The two angle functions read \<^verbatim>\<open>p1.y\<close>, \<^verbatim>\<open>p1.z\<close> (or \<^verbatim>\<open>p1.x\<close>) first and then
  the fields of \<^verbatim>\<open>p2\<close>; an \<^verbatim>\<open>undefined\<close> argument makes the read throw.\<close>

definition angleToEqualizeZ :: "Vector3 option \<Rightarrow> Vector3 option \<Rightarrow> error + real" where
  "angleToEqualizeZ p1 p2 =
     (case p1 of
        None \<Rightarrow> Inl TypeError
      | Some v1 \<Rightarrow>
          (case p2 of
             None \<Rightarrow> Inl TypeError
           | Some v2 \<Rightarrow>
               (let y1 = y v1; z1 = z v1; y2 = y v2; z2 = z v2
                in Inr (atan2 (z2 - z1) (y1 - y2)))))"

definition angleZToEqualizeX :: "Vector3 option \<Rightarrow> Vector3 option \<Rightarrow> error + real" where
  "angleZToEqualizeX p1 p2 =
     (case p1 of
        None \<Rightarrow> Inl TypeError
      | Some v1 \<Rightarrow>
          (case p2 of
             None \<Rightarrow> Inl TypeError
           | Some v2 \<Rightarrow>
               (let x1 = x v1; y1 = y v1; x2 = x v2; y2 = y v2
                in Inr (atan2 (x1 - x2) (y1 - y2)))))"

text \<open>
  The state that \<^verbatim>\<open>animateRotation\<close> and the component \<^verbatim>\<open>App\<close> act on. Time is in
  milliseconds. \<open>heap\<close> is the store of the \<^verbatim>\<open>Vector3\<close> objects that the state
  \<^verbatim>\<open>points\<close> refers to: an array of points is a list of addresses, so that two arrays
  can share their objects. \<open>tweens\<close> are the animations started with \<^verbatim>\<open>gsap.to\<close>,
  \<open>timers\<close> the callbacks registered with \<^verbatim>\<open>setTimeout\<close>, each with the time it is
  due at. \<open>trace\<close> records, in order, every start of a tween and every call of a
  completion callback, with the time of the event.
\<close>

datatype target = GlbScene | Group

record tween =
  tw_target :: target
  tw_x :: "real option"
  tw_y :: "real option"
  tw_z :: "real option"
  tw_duration :: real
  tw_ease :: string
  tw_start :: real

text \<open>The tween runs for \<^verbatim>\<open>duration\<close> seconds from its start.\<close>

definition tw_finish :: "tween \<Rightarrow> real" where
  "tw_finish tw = tw_start tw + 1000 * tw_duration tw"

datatype event = TweenStarted target real real | CallbackInvoked real

text \<open>The closure passed to \<^verbatim>\<open>setTimeout\<close> in the alignment effect; it holds the array
  \<^verbatim>\<open>points\<close> of the render it was created in.\<close>

datatype task = Phase2 "nat list"

record world =
  clock :: real
  heap :: "nat \<Rightarrow> Vector3"
  nextFree :: nat
  tweens :: "tween list"
  timers :: "(real \<times> task) list"
  trace :: "event list"
  activePlane :: "string option"
  aligned :: "bool option"
  points :: "nat list option"

text \<open>\<^verbatim>\<open>gsap.to(object.rotation, vars)\<close> starts a tween at the current time and returns at
  once; the values of the target change on later frames.\<close>

definition gsapTo :: "tween \<Rightarrow> world \<Rightarrow> world" where
  "gsapTo tw w =
     w\<lparr>tweens := tweens w @ [tw\<lparr>tw_start := clock w\<rparr>],
       trace := trace w @ [TweenStarted (tw_target tw) (clock w) (tw_duration tw)]\<rparr>"

text \<open>\<^verbatim>\<open>animateRotation(object, angle, axis, callback = null)\<close>: the target value of the
  named axis is set, the tween is started, and the callback, when there is one, is
  called next.\<close>

definition animateRotation ::
  "target \<Rightarrow> real \<Rightarrow> string \<Rightarrow> (world \<Rightarrow> error + world) option \<Rightarrow> world \<Rightarrow> error + world" where
  "animateRotation object angle axis callback w =
     (let obj = \<lparr>tw_target = object,
                 tw_x = (if axis = ''x'' then Some angle else None),
                 tw_y = (if axis = ''y'' then Some angle else None),
                 tw_z = (if axis = ''z'' then Some angle else None),
                 tw_duration = 1, tw_ease = ''power2.inOut'', tw_start = 0\<rparr>;
          w1 = gsapTo obj w
      in case callback of
           None \<Rightarrow> Inr w1
         | Some cb \<Rightarrow> cb (w1\<lparr>trace := trace w1 @ [CallbackInvoked (clock w1)]\<rparr>))"

section \<open>App\<close>

text \<open>\<^verbatim>\<open>xs[i]\<close> is \<^verbatim>\<open>undefined\<close> past the end of the array.\<close>

definition nth_opt :: "'a list \<Rightarrow> nat \<Rightarrow> 'a option" where
  "nth_opt xs i = (if i < length xs then Some (xs ! i) else None)"

definition deref :: "world \<Rightarrow> nat option \<Rightarrow> Vector3 option" where
  "deref w r = map_option (heap w) r"

text \<open>\<^verbatim>\<open>setPoints\<close> with a freshly computed array: the points are new objects, stored at
  the next free addresses.\<close>

definition setPointsNew :: "Vector3 list \<Rightarrow> world \<Rightarrow> world" where
  "setPointsNew vs w =
     w\<lparr>heap := (\<lambda>r. if nextFree w \<le> r \<and> r < nextFree w + length vs
                     then vs ! (r - nextFree w) else heap w r),
       nextFree := nextFree w + length vs,
       points := Some [nextFree w..<nextFree w + length vs]\<rparr>"

datatype Selection = Selection (meshName: string) (sel_normal: Vector3) (centroid: Vector3)

text \<open>
  \<^verbatim>\<open>handleApply\<close>. \<open>scene\<close> is \<^verbatim>\<open>glbSceneRef.current.getObjectByName\<close>, which yields
  \<^verbatim>\<open>undefined\<close> for a name it does not know. The test
  \<^verbatim>\<open>plane1?.normal && plane2?.normal\<close> holds when both selections are made.
\<close>

definition handleApply ::
  "(string \<Rightarrow> Mesh option) \<Rightarrow> Selection option \<Rightarrow> Selection option \<Rightarrow> world \<Rightarrow> error + world" where
  "handleApply scene plane1 plane2 w0 =
     (let w = w0\<lparr>activePlane := None\<rparr>
      in case plane1 of
           None \<Rightarrow> Inr w
         | Some s1 \<Rightarrow>
        (case plane2 of
           None \<Rightarrow> Inr w
         | Some s2 \<Rightarrow>
        (case scene (meshName s1) of
           None \<Rightarrow> Inl TypeError
         | Some mesh \<Rightarrow>
        (let planeInstance1 = setFromNormalAndCoplanarPoint (sel_normal s1) (centroid s1);
             planeInstance2 = setFromNormalAndCoplanarPoint (sel_normal s2) (centroid s2)
         in case getIntersectionContour mesh planeInstance1 of
              Inl e \<Rightarrow> Inl e
            | Inr planeShape \<Rightarrow>
           (case getContourPlaneIntersection planeShape planeInstance2 of
              Inl e \<Rightarrow> Inl e
            | Inr point \<Rightarrow>
                if length point = 0 then
                  (case scene (meshName s2) of
                     None \<Rightarrow> Inl TypeError
                   | Some mesh2 \<Rightarrow>
                  (case getIntersectionContour mesh2 planeInstance2 of
                     Inl e \<Rightarrow> Inl e
                   | Inr planeShape2 \<Rightarrow>
                  (case getContourPlaneIntersection planeShape2 planeInstance1 of
                     Inl e \<Rightarrow> Inl e
                   | Inr point2 \<Rightarrow> Inr (setPointsNew point2 (w\<lparr>aligned := Some True\<rparr>)))))
                else Inr (setPointsNew point (w\<lparr>aligned := Some True\<rparr>)))))))"

text \<open>
  The callback of the timer: \<^verbatim>\<open>angleZToEqualizeX(points[0], points[1])\<close> on the objects
  the captured array refers to, as they are when the timer fires, and the rotation of
  the group about \<open>z\<close> with no callback.
\<close>

fun runTask :: "task \<Rightarrow> world \<Rightarrow> error + world" where
  "runTask (Phase2 pts) w =
     (case angleZToEqualizeX (deref w (nth_opt pts 0)) (deref w (nth_opt pts 1)) of
        Inl e \<Rightarrow> Inl e
      | Inr angleZ \<Rightarrow> animateRotation Group angleZ ''z'' None w)"

text \<open>
  The completion callback of the first rotation. \<^verbatim>\<open>[...points]\<close> copies the array, not
  the objects in it, so \<^verbatim>\<open>updatedPoints[0].applyAxisAngle(...)\<close> overwrites the object
  that \<^verbatim>\<open>points[0]\<close> refers to as well; an \<^verbatim>\<open>undefined\<close> element makes the call throw.
  \<^verbatim>\<open>setTimeout(..., 1000)\<close> registers the second phase.
\<close>

definition rotatePointAt :: "nat option \<Rightarrow> real \<Rightarrow> world \<Rightarrow> error + world" where
  "rotatePointAt r angleX w =
     (case r of
        None \<Rightarrow> Inl TypeError
      | Some addr \<Rightarrow>
          Inr (w\<lparr>heap := (heap w)(addr := applyAxisAngle (Vector3 1 0 0) angleX (heap w addr))\<rparr>))"

definition phase1Callback :: "nat list \<Rightarrow> real \<Rightarrow> world \<Rightarrow> error + world" where
  "phase1Callback pts angleX w =
     (let updatedPoints = pts
      in case rotatePointAt (nth_opt updatedPoints 0) angleX w of
           Inl e \<Rightarrow> Inl e
         | Inr w1 \<Rightarrow>
        (case rotatePointAt (nth_opt updatedPoints 1) angleX w1 of
           Inl e \<Rightarrow> Inl e
         | Inr w2 \<Rightarrow>
             Inr (w2\<lparr>points := Some updatedPoints,
                     timers := timers w2 @ [(clock w2 + 1000, Phase2 pts)]\<rparr>)))"

text \<open>
  The effect that depends on \<^verbatim>\<open>aligned\<close>. \<^verbatim>\<open>!points\<close> holds for \<^verbatim>\<open>undefined\<close> only (an
  empty array is truthy), \<^verbatim>\<open>!aligned\<close> for \<^verbatim>\<open>null\<close> and \<^verbatim>\<open>false\<close>.
\<close>

definition alignEffect :: "world \<Rightarrow> error + world" where
  "alignEffect w =
     (case points w of
        None \<Rightarrow> Inr w
      | Some pts \<Rightarrow>
          if aligned w \<noteq> Some True then Inr w
          else
            (case angleToEqualizeZ (deref w (nth_opt pts 0)) (deref w (nth_opt pts 1)) of
               Inl e \<Rightarrow> Inl e
             | Inr angleX \<Rightarrow>
                 animateRotation GlbScene angleX ''x'' (Some (phase1Callback pts angleX)) w))"

text \<open>A click on \<^verbatim>\<open>Apply\<close>: the handler runs, and the effect runs after it when the
  handler has changed \<^verbatim>\<open>aligned\<close>.\<close>

definition applyClicked ::
  "(string \<Rightarrow> Mesh option) \<Rightarrow> Selection option \<Rightarrow> Selection option \<Rightarrow> world \<Rightarrow> error + world" where
  "applyClicked scene plane1 plane2 w =
     (case handleApply scene plane1 plane2 w of
        Inl e \<Rightarrow> Inl e
      | Inr w' \<Rightarrow> if aligned w' \<noteq> aligned w then alignEffect w' else Inr w')"

text \<open>The timer that is due first fires: the clock moves to its time and its callback
  runs.\<close>

definition fireTimer :: "world \<Rightarrow> error + world" where
  "fireTimer w =
     (case timers w of
        [] \<Rightarrow> Inr w
      | (due, t) # rest \<Rightarrow> runTask t (w\<lparr>clock := max (clock w) due, timers := rest\<rparr>))"

section \<open>Notions used in the statements about stitching\<close>

definition unusedCount :: "bool list \<Rightarrow> nat" where
  "unusedCount used = card {j. j < length used \<and> \<not> used ! j}"

definition usedSet :: "bool list \<Rightarrow> nat set" where
  "usedSet used = {j. j < length used \<and> used ! j}"

definition endpointsOf :: "'p segment list \<Rightarrow> nat set \<Rightarrow> 'p set" where
  "endpointsOf segments J = (\<Union>j\<in>J. {seg_start (segments ! j), seg_end (segments ! j)})"

text \<open>The invariant of one polyline under construction, relative to the set \<open>B\<close> of
  segments marked before its seed: the segments marked since are the ones the polyline
  is built from.\<close>

definition growInv :: "'p segment list \<Rightarrow> nat set \<Rightarrow> 'p list \<Rightarrow> bool list \<Rightarrow> bool" where
  "growInv segments B p u \<longleftrightarrow>
     B \<subseteq> usedSet u \<and> usedSet u - B \<noteq> {} \<and> length p = card (usedSet u - B) + 1 \<and>
     set p \<subseteq> endpointsOf segments (usedSet u - B)"

definition ownedBy :: "'p segment list \<Rightarrow> 'p list list \<Rightarrow> nat set list \<Rightarrow> bool" where
  "ownedBy segments stitched owner \<longleftrightarrow>
     length owner = length stitched \<and>
     (\<forall>a<length owner. \<forall>b<length owner. a \<noteq> b \<longrightarrow> owner ! a \<inter> owner ! b = {}) \<and>
     (\<forall>k<length stitched. length (stitched ! k) = card (owner ! k) + 1 \<and>
         set (stitched ! k) \<subseteq> endpointsOf segments (owner ! k))"

definition stitchInv :: "'p segment list \<Rightarrow> 'p list list \<Rightarrow> bool list \<Rightarrow> bool" where
  "stitchInv segments stitched used \<longleftrightarrow>
     length used = length segments \<and>
     (\<exists>owner. ownedBy segments stitched owner \<and> \<Union>(set owner) = usedSet used) \<and>
     (\<Sum>p\<leftarrow>stitched. length p - 1) = card (usedSet used) \<and>
     length stitched \<le> card (usedSet used) \<and>
     (\<forall>p\<in>set stitched. 2 \<le> length p)"

section \<open>Notions used in the statements about contours\<close>

text \<open>What one edge of a polyline adds to the result of
  \<^verbatim>\<open>getContourPlaneIntersection\<close>: the crossing, when the edge passes the test on the
  signed distances and \<^verbatim>\<open>intersectLine\<close> returns a point.\<close>

definition edgeCrossing :: "Plane \<Rightarrow> Vector3 \<times> Vector3 \<Rightarrow> Vector3 option" where
  "edgeCrossing secondPlane edge =
     (if straddles secondPlane (fst edge) (snd edge)
      then intersectLine secondPlane (fst edge) (snd edge) else None)"

text \<open>The parameter along an edge at which \<^verbatim>\<open>intersectLine\<close> places its result when
  the edge passes the test on the signed distances: \<open>0\<close>, the start of the edge, when the
  two distances are equal, and else the fraction of the way from the start at which
  the signed distance vanishes.\<close>

definition crossingParameter :: "Plane \<Rightarrow> Vector3 \<times> Vector3 \<Rightarrow> real" where
  "crossingParameter secondPlane edge =
     (let distStart = distanceToPoint secondPlane (fst edge);
          distEnd = distanceToPoint secondPlane (snd edge)
      in if distStart = distEnd then 0 else distStart / (distStart - distEnd))"

section \<open>Notions used in the statement about permuted input\<close>

text \<open>Two polylines are the same when their point sequences are equal or one is the
  reverse of the other; two lists of polylines are the same set of polylines when each
  polyline of either list is the same as one of the other.\<close>

definition samePolyline :: "'p list \<Rightarrow> 'p list \<Rightarrow> bool" where
  "samePolyline p q \<longleftrightarrow> p = q \<or> p = rev q"

definition sameContours :: "'p list list \<Rightarrow> 'p list list \<Rightarrow> bool" where
  "sameContours ps qs \<longleftrightarrow>
     (\<forall>p\<in>set ps. \<exists>q\<in>set qs. samePolyline p q) \<and>
     (\<forall>q\<in>set qs. \<exists>p\<in>set ps. samePolyline p q)"

text \<open>
  The undirected edge of a segment and the undirected edges between the consecutive
  points of a point sequence; \<open>chainEdges\<close> collects the edges of several sequences, and
  \<open>usedEdges\<close> the edges of the segments marked used.
\<close>

definition edgeSet :: "'p segment \<Rightarrow> 'p set" where
  "edgeSet s = {seg_start s, seg_end s}"

fun edgesOf :: "'p list \<Rightarrow> 'p set set" where
  "edgesOf (a # b # r) = insert {a, b} (edgesOf (b # r))"
| "edgesOf [a] = {}"
| "edgesOf [] = {}"

definition chainEdges :: "'p list list \<Rightarrow> 'p set set" where
  "chainEdges chs = (\<Union>c\<in>set chs. edgesOf c)"

definition usedEdges :: "'p segment list \<Rightarrow> bool list \<Rightarrow> 'p set set" where
  "usedEdges segments used = (\<lambda>j. edgeSet (segments ! j)) ` usedSet used"

text \<open>
  A segment list forms open chains \<open>chs\<close> when every chain has at least two points, no
  point occurs twice in the chains, the segments are the edges between consecutive
  chain points, each edge once, in any order and direction, and the comparison of
  points agrees with equality on the chain points. \<open>openChains\<close> states the last
  condition for \<^verbatim>\<open>samePoint\<close>: the tolerance is positive and different chain points
  are at least the tolerance apart.
\<close>

definition chainsOK :: "('p \<Rightarrow> 'p \<Rightarrow> bool) \<Rightarrow> 'p list list \<Rightarrow> 'p segment list \<Rightarrow> bool" where
  "chainsOK same chs segments \<longleftrightarrow>
     (\<forall>c\<in>set chs. 2 \<le> length c) \<and>
     distinct (concat chs) \<and>
     distinct (map edgeSet segments) \<and>
     edgeSet ` set segments = chainEdges chs \<and>
     (\<forall>a\<in>set (concat chs). \<forall>b\<in>set (concat chs). same a b \<longleftrightarrow> a = b)"

definition openChains :: "real \<Rightarrow> Vector3 list list \<Rightarrow> Vector3 segment list \<Rightarrow> bool" where
  "openChains tolerance chs segments \<longleftrightarrow>
     0 < tolerance \<and>
     (\<forall>c\<in>set chs. 2 \<le> length c) \<and>
     distinct (concat chs) \<and>
     distinct (map edgeSet segments) \<and>
     edgeSet ` set segments = chainEdges chs \<and>
     (\<forall>a\<in>set (concat chs). \<forall>b\<in>set (concat chs). a \<noteq> b \<longrightarrow> tolerance \<le> distanceTo a b)"

text \<open>The invariants of the proof: the polyline under construction is a contiguous
  part of the chain \<open>c\<close> or of its reverse and the edges marked since its seed are its
  own; the polylines pushed so far are whole chains, up to reversal.\<close>

definition chainInv :: "'p segment list \<Rightarrow> 'p list \<Rightarrow> 'p set set \<Rightarrow> 'p list \<Rightarrow> bool list \<Rightarrow> bool" where
  "chainInv segments c E0 p u \<longleftrightarrow>
     2 \<le> length p \<and>
     (\<exists>pre post. pre @ p @ post = c \<or> pre @ p @ post = rev c) \<and>
     usedEdges segments u = E0 \<union> edgesOf p"

definition doneInv ::
  "'p segment list \<Rightarrow> 'p list list \<Rightarrow> 'p list list \<Rightarrow> bool list \<Rightarrow> bool" where
  "doneInv segments chs stitched used \<longleftrightarrow>
     length used = length segments \<and>
     (\<exists>dn. set dn \<subseteq> set chs \<and> distinct dn \<and>
        usedEdges segments used = chainEdges dn \<and> list_all2 samePolyline stitched dn)"

section \<open>Example inputs\<close>

text \<open>Points used where a statement is run on a concrete input: three points of an
  open chain, a fourth point, and a point within the default tolerance of \<open>exB\<close>.\<close>

definition exA :: Vector3 where "exA = Vector3 0 0 0"

definition exB :: Vector3 where "exB = Vector3 1 0 0"

definition exC :: Vector3 where "exC = Vector3 1 1 0"

definition exD :: Vector3 where "exD = Vector3 1 0 1"

definition exB' :: Vector3 where "exB' = Vector3 1 0 (1 / 10000000)"

text \<open>The initial state of the application, and the same state after a rotation of
  the scene by \<open>1\<close> about \<open>x\<close> has been started with a callback that does nothing.\<close>

definition world0 :: world where
  "world0 = \<lparr>clock = 0, heap = (\<lambda>r. Vector3 0 0 0), nextFree = 0, tweens = [], timers = [],
     trace = [], activePlane = None, aligned = None, points = None\<rparr>"

definition world0a :: world where
  "world0a = \<lparr>clock = 0, heap = (\<lambda>r. Vector3 0 0 0), nextFree = 0,
     tweens = [\<lparr>tw_target = GlbScene, tw_x = Some 1, tw_y = None, tw_z = None,
                tw_duration = 1, tw_ease = ''power2.inOut'', tw_start = 0\<rparr>],
     timers = [], trace = [TweenStarted GlbScene 0 1, CallbackInvoked 0],
     activePlane = None, aligned = None, points = None\<rparr>"

text \<open>A state in which the two landmark points \<open>(0, 0, 0)\<close> and \<open>(1, 1, 0)\<close> are stored
  and the alignment is requested; \<open>worldEx1\<close> is that state after the alignment effect has
  run, and \<open>worldEx2\<close> after the timer has fired as well.\<close>

definition worldEx :: world where
  "worldEx = \<lparr>clock = 0, heap = (\<lambda>r. if r = 1 then Vector3 1 1 0 else Vector3 0 0 0),
     nextFree = 2, tweens = [], timers = [],
     trace = [], activePlane = None, aligned = Some True, points = Some [0, 1]\<rparr>"

definition worldEx1 :: world where
  "worldEx1 = \<lparr>clock = 0, heap = (\<lambda>r. if r = 1 then Vector3 1 (- 1) 0 else Vector3 0 0 0),
     nextFree = 2,
     tweens = [\<lparr>tw_target = GlbScene, tw_x = Some pi, tw_y = None, tw_z = None,
                  tw_duration = 1, tw_ease = ''power2.inOut'', tw_start = 0\<rparr>],
     timers = [(1000, Phase2 [0, 1])],
     trace = [TweenStarted GlbScene 0 1, CallbackInvoked 0],
     activePlane = None, aligned = Some True, points = Some [0, 1]\<rparr>"

definition worldEx2 :: world where
  "worldEx2 = \<lparr>clock = 1000, heap = (\<lambda>r. if r = 1 then Vector3 1 (- 1) 0 else Vector3 0 0 0),
     nextFree = 2,
     tweens = [\<lparr>tw_target = GlbScene, tw_x = Some pi, tw_y = None, tw_z = None,
                  tw_duration = 1, tw_ease = ''power2.inOut'', tw_start = 0\<rparr>,
               \<lparr>tw_target = Group, tw_x = None, tw_y = None, tw_z = Some (- (pi / 4)),
                  tw_duration = 1, tw_ease = ''power2.inOut'', tw_start = 1000\<rparr>],
     timers = [],
     trace = [TweenStarted GlbScene 0 1, CallbackInvoked 0, TweenStarted Group 1000 1],
     activePlane = None, aligned = Some True, points = Some [0, 1]\<rparr>"

text \<open>Two meshes of one triangle each, each in a tree of one leaf and with the
  identity as world matrix, and selections of planes on them: the plane \<open>z = 0\<close> cuts
  \<open>meshA\<close> and the plane \<open>x = 10\<close> cuts \<open>meshB\<close>.\<close>

definition meshA :: Mesh where
  "meshA = Mesh (Leaf (Box3 (Vector3 0 0 (- 1)) (Vector3 2 2 1))
                  [Triangle (Vector3 0 0 (- 1)) (Vector3 2 0 1) (Vector3 0 2 1)])
             (\<lambda>v. v) (\<lambda>p. p)"

definition meshB :: Mesh where
  "meshB = Mesh (Leaf (Box3 (Vector3 9 0 4) (Vector3 11 2 8))
                  [Triangle (Vector3 9 0 4) (Vector3 11 0 6) (Vector3 11 2 8)])
             (\<lambda>v. v) (\<lambda>p. p)"

definition selA :: Selection where
  "selA = Selection ''A'' (Vector3 0 0 1) (Vector3 0 0 0)"

definition selB :: Selection where
  "selB = Selection ''B'' (Vector3 1 0 0) (Vector3 10 0 0)"

definition exScene :: "string \<Rightarrow> Mesh option" where
  "exScene name = (if name = ''A'' then Some meshA else if name = ''B'' then Some meshB else None)"

section \<open>Stitching: termination and conservation\<close>

lemma unusedCount_mark:
  assumes "j < length used" "\<not> used ! j"
  shows "unusedCount (used[j := True]) < unusedCount used"
proof -
  have "{k. k < length (used[j := True]) \<and> \<not> used[j := True] ! k}
        = {k. k < length used \<and> \<not> used ! k} - {j}"
    using assms by (auto simp: nth_list_update)
  moreover have "j \<in> {k. k < length used \<and> \<not> used ! k}" using assms by simp
  moreover have "finite {k. k < length used \<and> \<not> used ! k}" by simp
  ultimately show ?thesis
    unfolding unusedCount_def by (metis card_Diff1_less)
qed

lemma fold_invariant:
  assumes "P st" and "\<And>j s. j \<in> set js \<Longrightarrow> P s \<Longrightarrow> P (f j s)"
  shows "P (fold f js st)"
  using assms by (induction js arbitrary: st) auto

lemma scanStep_cases:
  assumes "scanStep same segments j (p, u, e) = (p', u', e')"
  shows "(p' = p \<and> u' = u \<and> e' = e) \<or>
         (\<not> u ! j \<and> u' = u[j := True] \<and> e' \<and>
            (p' = p @ [seg_end (segments ! j)] \<or> p' = p @ [seg_start (segments ! j)] \<or>
             p' = seg_start (segments ! j) # p \<or> p' = seg_end (segments ! j) # p))"
  using assms by (auto simp: scanStep_def split: if_splits)

lemma scanPass_invariant:
  assumes inv: "I p u" and len: "length u = length segments"
    and pres: "\<And>p u e j p' u' e'. I p u \<Longrightarrow> length u = length segments \<Longrightarrow> j < length segments \<Longrightarrow>
        scanStep same segments j (p, u, e) = (p', u', e') \<Longrightarrow> I p' u'"
  shows "case scanPass same segments (p, u) of
     (p', u', e') \<Rightarrow> I p' u' \<and> length u' = length segments \<and>
        (if e' then unusedCount u' < unusedCount u else p' = p \<and> u' = u)"
proof -
  let ?P = "\<lambda>s. case s of (p', u', e') \<Rightarrow> I p' u' \<and> length u' = length segments \<and>
        (if e' then unusedCount u' < unusedCount u else p' = p \<and> u' = u)"
  have "?P (fold (scanStep same segments) [0..<length segments] (p, u, False))"
  proof (rule fold_invariant)
    show "?P (p, u, False)" using inv len by simp
  next
    fix j s assume j: "j \<in> set [0..<length segments]" and P: "?P s"
    obtain p1 u1 e1 where s: "s = (p1, u1, e1)" by (cases s) auto
    obtain p2 u2 e2 where r: "scanStep same segments j (p1, u1, e1) = (p2, u2, e2)"
      by (cases "scanStep same segments j (p1, u1, e1)") auto
    have jl: "j < length segments" using j by simp
    have I1: "I p1 u1" and l1: "length u1 = length segments"
      and le: "unusedCount u1 \<le> unusedCount u"
      and e1: "if e1 then unusedCount u1 < unusedCount u else p1 = p \<and> u1 = u"
      using P s by (auto split: if_splits)
    have I2: "I p2 u2" using pres[OF I1 l1 jl r] .
    from scanStep_cases[OF r] show "?P (scanStep same segments j s)"
    proof
      assume "p2 = p1 \<and> u2 = u1 \<and> e2 = e1"
      then show ?thesis using P s r by simp
    next
      assume c: "\<not> u1 ! j \<and> u2 = u1[j := True] \<and> e2 \<and>
            (p2 = p1 @ [seg_end (segments ! j)] \<or> p2 = p1 @ [seg_start (segments ! j)] \<or>
             p2 = seg_start (segments ! j) # p1 \<or> p2 = seg_end (segments ! j) # p1)"
      then have "unusedCount u2 < unusedCount u1"
        using unusedCount_mark[of j u1] jl l1 by simp
      then show ?thesis using c I2 l1 le s r by simp
    qed
  qed
  then show ?thesis by (simp add: scanPass_def)
qed

lemma extendLoop_rule:
  assumes inv: "I p u" and len: "length u = length segments"
    and pres: "\<And>p u e j p' u' e'. I p u \<Longrightarrow> length u = length segments \<Longrightarrow> j < length segments \<Longrightarrow>
        scanStep same segments j (p, u, e) = (p', u', e') \<Longrightarrow> I p' u'"
  shows "\<exists>p' u'. extendLoop same segments (p, u) = Some (p', u') \<and> I p' u' \<and>
           length u' = length segments \<and> scanPass same segments (p', u') = (p', u', False)"
  using inv len
proof (induction "unusedCount u" arbitrary: p u rule: less_induct)
  case less
  obtain p1 u1 e1 where r: "scanPass same segments (p, u) = (p1, u1, e1)"
    by (cases "scanPass same segments (p, u)") auto
  have P: "I p1 u1 \<and> length u1 = length segments \<and>
        (if e1 then unusedCount u1 < unusedCount u else p1 = p \<and> u1 = u)"
    using scanPass_invariant[of I p u segments same, OF less.prems pres] r by simp
  show ?case
  proof (cases e1)
    case True
    then have "unusedCount u1 < unusedCount u" using P by simp
    from less.hyps[OF this] P
    obtain p' u' where "extendLoop same segments (p1, u1) = Some (p', u')" "I p' u'"
      "length u' = length segments" "scanPass same segments (p', u') = (p', u', False)"
      by blast
    moreover have "extendLoop same segments (p, u) = extendLoop same segments (p1, u1)"
      by (subst extendLoop.simps) (simp add: r True)
    ultimately show ?thesis by auto
  next
    case False
    then have eq: "p1 = p" "u1 = u" using P by auto
    have "extendLoop same segments (p, u) = Some (p, u)"
      by (subst extendLoop.simps) (simp add: r False eq)
    then show ?thesis using less.prems r False eq by auto
  qed
qed

lemma usedSet_mark: "j < length u \<Longrightarrow> usedSet (u[j := True]) = insert j (usedSet u)"
  by (auto simp: usedSet_def nth_list_update)

lemma usedSet_finite [simp]: "finite (usedSet u)"
  by (simp add: usedSet_def)

lemma usedSet_bound: "usedSet u \<subseteq> {..<length u}"
  by (auto simp: usedSet_def)

lemma usedSet_replicate [simp]: "usedSet (replicate n False) = {}"
  by (auto simp: usedSet_def)

lemma endpointsOf_insert:
  "endpointsOf segments (insert j J) =
     {seg_start (segments ! j), seg_end (segments ! j)} \<union> endpointsOf segments J"
  by (auto simp: endpointsOf_def)

lemma growInv_step:
  assumes "growInv segments B p u" "length u = length segments" "j < length segments"
    "scanStep same segments j (p, u, e) = (p', u', e')"
  shows "growInv segments B p' u'"
proof -
  from scanStep_cases[OF assms(4)] show ?thesis
  proof
    assume "p' = p \<and> u' = u \<and> e' = e" then show ?thesis using assms(1) by simp
  next
    assume c: "\<not> u ! j \<and> u' = u[j := True] \<and> e' \<and>
            (p' = p @ [seg_end (segments ! j)] \<or> p' = p @ [seg_start (segments ! j)] \<or>
             p' = seg_start (segments ! j) # p \<or> p' = seg_end (segments ! j) # p)"
    have jn: "j \<notin> usedSet u" using c by (simp add: usedSet_def)
    have U: "usedSet u' = insert j (usedSet u)" using c assms(2,3) by (simp add: usedSet_mark)
    have jB: "j \<notin> B" using jn assms(1) by (auto simp: growInv_def)
    have D: "usedSet u' - B = insert j (usedSet u - B)" using U jB by auto
    have "card (usedSet u' - B) = card (usedSet u - B) + 1"
      unfolding D using jn by simp
    moreover have "length p' = length p + 1" using c by auto
    moreover have "set p' \<subseteq> endpointsOf segments (usedSet u' - B)"
      unfolding D endpointsOf_insert using c assms(1) by (auto simp: growInv_def)
    ultimately show ?thesis using assms(1) U D by (auto simp: growInv_def)
  qed
qed

lemma ownedBy_snoc:
  assumes "ownedBy segments stitched owner" "\<Union>(set owner) \<subseteq> B" "T \<inter> B = {}"
    "length p = card T + 1" "set p \<subseteq> endpointsOf segments T"
  shows "ownedBy segments (stitched @ [p]) (owner @ [T])"
proof -
  have len: "length owner = length stitched" using assms(1) by (simp add: ownedBy_def)
  have sub: "owner ! a \<inter> T = {}" if "a < length owner" for a
  proof -
    have "owner ! a \<in> set owner" using that by simp
    then have "owner ! a \<subseteq> B" using assms(2) by blast
    then show ?thesis using assms(3) by blast
  qed
  have sub': "T \<inter> owner ! a = {}" if "a < length owner" for a
    using sub[OF that] by blast
  show ?thesis
    unfolding ownedBy_def
  proof (intro conjI allI impI)
    show "length (owner @ [T]) = length (stitched @ [p])" using len by simp
  next
    fix a b assume "a < length (owner @ [T])" "b < length (owner @ [T])" "a \<noteq> b"
    then consider "a < length owner" "b < length owner" | "a < length owner" "b = length owner"
      | "a = length owner" "b < length owner" by (auto simp: less_Suc_eq)
    then show "(owner @ [T]) ! a \<inter> (owner @ [T]) ! b = {}"
    proof cases
      case 1
      then show ?thesis using assms(1) \<open>a \<noteq> b\<close> by (simp add: ownedBy_def nth_append)
    next
      case 2
      then show ?thesis using sub[of a] by (simp add: nth_append)
    next
      case 3
      then show ?thesis using sub'[of b] by (simp add: nth_append)
    qed
  next
    fix k assume "k < length (stitched @ [p])"
    then show "length ((stitched @ [p]) ! k) = card ((owner @ [T]) ! k) + 1"
      using assms(1,4) len by (auto simp: ownedBy_def nth_append less_Suc_eq)
  next
    fix k assume "k < length (stitched @ [p])"
    then show "set ((stitched @ [p]) ! k) \<subseteq> endpointsOf segments ((owner @ [T]) ! k)"
      using assms(1,5) len by (auto simp: ownedBy_def nth_append less_Suc_eq)
  qed
qed

lemma seedStep_conserve:
  assumes inv: "stitchInv segments stitched used" and i: "i < length segments"
  shows "\<exists>stitched' used'. seedStep same segments i (stitched, used) = Some (stitched', used') \<and>
           stitchInv segments stitched' used' \<and> usedSet used \<subseteq> usedSet used' \<and> i \<in> usedSet used'"
proof (cases "used ! i")
  case True
  have "length used = length segments" using inv by (simp add: stitchInv_def)
  then have "i \<in> usedSet used" using True i by (simp add: usedSet_def)
  moreover have "seedStep same segments i (stitched, used) = Some (stitched, used)"
    using True by (simp add: seedStep_def)
  ultimately show ?thesis using inv by blast
next
  case False
  let ?B = "usedSet used"
  let ?p0 = "[seg_start (segments ! i), seg_end (segments ! i)]"
  let ?u0 = "used[i := True]"
  have len: "length used = length segments" using inv by (simp add: stitchInv_def)
  have iB: "i \<notin> ?B" using False by (simp add: usedSet_def)
  have U0: "usedSet ?u0 = insert i ?B" using i len by (simp add: usedSet_mark)
  have D0: "usedSet ?u0 - ?B = {i}" using U0 iB by auto
  have g0: "growInv segments ?B ?p0 ?u0"
    unfolding growInv_def D0 using U0 by (auto simp: endpointsOf_def)
  have l0: "length ?u0 = length segments" using len by simp
  let ?I = "\<lambda>p u. growInv segments ?B p u \<and> i \<in> usedSet u"
  have I0: "?I ?p0 ?u0" using g0 U0 by simp
  have "\<exists>p' u'. extendLoop same segments (?p0, ?u0) = Some (p', u') \<and> ?I p' u' \<and>
           length u' = length segments \<and> scanPass same segments (p', u') = (p', u', False)"
  proof (rule extendLoop_rule[of ?I, OF I0 l0])
    fix p u e j p' u' e'
    assume a: "?I p u" "length u = length segments" "j < length segments"
      "scanStep same segments j (p, u, e) = (p', u', e')"
    have "usedSet u \<subseteq> usedSet u'" using scanStep_cases[OF a(4)] a(2,3)
      by (auto simp: usedSet_mark)
    then show "?I p' u'" using growInv_step[OF _ a(2,3,4), of ?B] a(1) by blast
  qed
  then obtain p' u' where ex: "extendLoop same segments (?p0, ?u0) = Some (p', u')"
    and g: "growInv segments ?B p' u'" and l': "length u' = length segments"
    and iu: "i \<in> usedSet u'"
    by blast
  let ?T = "usedSet u' - ?B"
  obtain owner where ow: "ownedBy segments stitched owner" and un: "\<Union>(set owner) = ?B"
    using inv by (auto simp: stitchInv_def)
  have sub: "?B \<subseteq> usedSet u'" and ne: "?T \<noteq> {}" and lp: "length p' = card ?T + 1"
    and sp: "set p' \<subseteq> endpointsOf segments ?T"
    using g by (auto simp: growInv_def)
  have ow': "ownedBy segments (stitched @ [p']) (owner @ [?T])"
    by (rule ownedBy_snoc[OF ow _ _ lp sp, of ?B]) (use un in auto)
  have un': "\<Union>(set (owner @ [?T])) = usedSet u'" using un sub by auto
  have cardU: "card (usedSet u') = card ?B + card ?T"
    using sub by (metis add.commute card_Diff_subset card_mono le_add_diff_inverse usedSet_finite finite_subset)
  have cT: "1 \<le> card ?T" using ne by (simp add: Suc_leI card_gt_0_iff)
  have sum: "(\<Sum>p\<leftarrow>stitched @ [p']. length p - 1) = card (usedSet u')"
    using inv lp cardU by (simp add: stitchInv_def)
  have cnt: "length (stitched @ [p']) \<le> card (usedSet u')"
    using inv cT cardU by (simp add: stitchInv_def)
  have two: "\<forall>p\<in>set (stitched @ [p']). 2 \<le> length p"
    using inv lp cT by (auto simp: stitchInv_def)
  have "stitchInv segments (stitched @ [p']) u'"
    unfolding stitchInv_def using l' ow' un' sum cnt two by blast
  moreover have "seedStep same segments i (stitched, used) = Some (stitched @ [p'], u')"
    using False ex by (simp add: seedStep_def)
  ultimately show ?thesis using sub iu by blast
qed

lemma seedLoop_conserve:
  assumes "stitchInv segments stitched used" "set is \<subseteq> {..<length segments}"
  shows "\<exists>stitched' used'. seedLoop same segments is (stitched, used) = Some (stitched', used') \<and>
           stitchInv segments stitched' used' \<and> usedSet used \<subseteq> usedSet used' \<and>
           set is \<subseteq> usedSet used'"
  using assms
proof (induction "is" arbitrary: stitched used)
  case Nil
  then show ?case by simp
next
  case (Cons i "is")
  have i: "i < length segments" using Cons.prems(2) by simp
  obtain s1 u1 where st: "seedStep same segments i (stitched, used) = Some (s1, u1)"
    and inv1: "stitchInv segments s1 u1" and m1: "usedSet used \<subseteq> usedSet u1"
    and i1: "i \<in> usedSet u1"
    using seedStep_conserve[OF Cons.prems(1) i, of same] by blast
  have "set is \<subseteq> {..<length segments}" using Cons.prems(2) by simp
  from Cons.IH[OF inv1 this]
  obtain s2 u2 where r: "seedLoop same segments is (s1, u1) = Some (s2, u2)"
    and inv2: "stitchInv segments s2 u2" and m2: "usedSet u1 \<subseteq> usedSet u2"
    and i2: "set is \<subseteq> usedSet u2"
    by blast
  have "seedLoop same segments (i # is) (stitched, used) = Some (s2, u2)"
    using st r by simp
  moreover have "set (i # is) \<subseteq> usedSet u2" using i1 i2 m2 by auto
  ultimately show ?case using inv2 m1 m2 by blast
qed

lemma stitchInv_init: "stitchInv segments [] (replicate (length segments) False)"
  unfolding stitchInv_def ownedBy_def by (auto intro: exI[of _ "[]"])

lemma stitchBy_conserve:
  "\<exists>out used'. stitchBy same segments = Some out \<and> stitchInv segments out used' \<and>
      usedSet used' = {..<length segments}"
proof -
  have sub: "set [0..<length segments] \<subseteq> {..<length segments}" by auto
  obtain out u where r: "seedLoop same segments [0..<length segments]
        ([], replicate (length segments) False) = Some (out, u)"
    and inv: "stitchInv segments out u" and all: "set [0..<length segments] \<subseteq> usedSet u"
    using seedLoop_conserve[OF stitchInv_init sub, of same] by blast
  have "length u = length segments" using inv by (simp add: stitchInv_def)
  then have "usedSet u = {..<length segments}" using all usedSet_bound[of u] by auto
  moreover have "stitchBy same segments = Some out" using r by (simp add: stitchBy_def)
  ultimately show ?thesis using inv by blast
qed


lemma samePoint_iff:
  "0 < tolerance \<Longrightarrow> samePoint tolerance a b \<longleftrightarrow> distanceToSquared a b < tolerance * tolerance"
proof -
  assume t: "0 < tolerance"
  have "sqrt (tolerance * tolerance) = tolerance" using t by simp
  then have "sqrt (distanceToSquared a b) < tolerance \<longleftrightarrow>
        sqrt (distanceToSquared a b) < sqrt (tolerance * tolerance)" by simp
  then show ?thesis unfolding samePoint_def distanceTo_def by (simp only: real_sqrt_less_iff)
qed

lemma unusedCount_usedSet: "unusedCount u = length u - card (usedSet u)"
proof -
  have "{j. j < length u \<and> \<not> u ! j} = {..<length u} - usedSet u"
    by (auto simp: usedSet_def)
  moreover have "usedSet u \<subseteq> {..<length u}" by (rule usedSet_bound)
  ultimately show ?thesis
    unfolding unusedCount_def by (simp add: card_Diff_subset)
qed

lemma scanPass_progress:
  assumes len: "length used = length segments"
    and r: "scanPass same segments (polyline, used) = (polyline', used', extended)"
  shows "if extended then usedSet used \<subset> usedSet used'
         else polyline' = polyline \<and> used' = used"
proof -
  let ?I = "\<lambda>(p::'a list) u. usedSet used \<subseteq> usedSet u"
  have "case scanPass same segments (polyline, used) of
     (p', u', e') \<Rightarrow> ?I p' u' \<and> length u' = length segments \<and>
        (if e' then unusedCount u' < unusedCount used else p' = polyline \<and> u' = used)"
  proof (rule scanPass_invariant[of ?I, OF _ len])
    show "?I polyline used" by simp
  next
    fix p u e j p' u' e'
    assume a: "?I p u" "length u = length segments" "j < length segments"
      "scanStep same segments j (p, u, e) = (p', u', e')"
    have "usedSet u \<subseteq> usedSet u'" using scanStep_cases[OF a(4)] a(2,3)
      by (auto simp: usedSet_mark)
    then show "?I p' u'" using a(1) by blast
  qed
  then have sub: "usedSet used \<subseteq> usedSet used'" and l: "length used' = length segments"
    and c: "if extended then unusedCount used' < unusedCount used
            else polyline' = polyline \<and> used' = used"
    using r by auto
  show ?thesis
  proof (cases extended)
    case True
    then have "unusedCount used' < unusedCount used" using c by simp
    then have "usedSet used \<noteq> usedSet used'"
      using len l by (auto simp: unusedCount_usedSet)
    then show ?thesis using sub True by auto
  next
    case False
    then show ?thesis using c by simp
  qed
qed

lemma extendLoop_total:
  assumes "length used = length segments"
  shows "\<exists>r. extendLoop same segments (polyline, used) = Some r"
  using extendLoop_rule[of "\<lambda>p u. True" polyline used segments same] assms by auto

lemma stitchBy_total:
  "\<exists>out. stitchBy same segments = Some out \<and> length out \<le> length segments"
proof -
  obtain out u where r: "stitchBy same segments = Some out"
    and inv: "stitchInv segments out u" and all: "usedSet u = {..<length segments}"
    using stitchBy_conserve by blast
  have "length out \<le> card (usedSet u)" using inv by (simp add: stitchInv_def)
  then show ?thesis using r all by simp
qed

text \<open>
  Claim C9. \<^verbatim>\<open>stitchSegments\<close> returns for every segment list and tolerance, and
  pushes at most one polyline per input segment. The extension loop returns from every
  state whose flags match the segment list. One scan pass either sets the flag
  \<^verbatim>\<open>extended\<close>, and then it has marked at least one segment that was not marked
  before (and unmarked none), or it leaves the flag unset, and then it has changed
  nothing and the \<^verbatim>\<open>while\<close> loop ends with the polyline as it stands.
\<close>

theorem stitchSegments_terminates:
  "(\<exists>out. stitchSegments segments tolerance = Some out \<and> length out \<le> length segments) \<and>
   (\<forall>polyline used. length used = length segments \<longrightarrow>
      (\<exists>r. extendLoop (samePoint tolerance) segments (polyline, used) = Some r) \<and>
      (case scanPass (samePoint tolerance) segments (polyline, used) of
         (polyline', used', extended) \<Rightarrow>
           if extended then usedSet used \<subset> usedSet used'
           else polyline' = polyline \<and> used' = used \<and>
                extendLoop (samePoint tolerance) segments (polyline, used) = Some (polyline, used)))"
proof (intro conjI allI impI)
  show "\<exists>out. stitchSegments segments tolerance = Some out \<and> length out \<le> length segments"
    unfolding stitchSegments_def by (rule stitchBy_total)
next
  fix polyline :: "Vector3 list" and used :: "bool list"
  assume len: "length used = length segments"
  show "\<exists>r. extendLoop (samePoint tolerance) segments (polyline, used) = Some r"
    by (rule extendLoop_total[OF len])
  obtain p' u' e where r: "scanPass (samePoint tolerance) segments (polyline, used) = (p', u', e)"
    by (cases "scanPass (samePoint tolerance) segments (polyline, used)") auto
  have pr: "if e then usedSet used \<subset> usedSet u' else p' = polyline \<and> u' = used"
    by (rule scanPass_progress[OF len r])
  have stop: "extendLoop (samePoint tolerance) segments (polyline, used) = Some (polyline, used)"
    if ne: "\<not> e"
    using pr ne r by (subst extendLoop.simps) simp
  show "case scanPass (samePoint tolerance) segments (polyline, used) of
         (polyline', used', extended) \<Rightarrow>
           if extended then usedSet used \<subset> usedSet used'
           else polyline' = polyline \<and> used' = used \<and>
                extendLoop (samePoint tolerance) segments (polyline, used) = Some (polyline, used)"
    using pr stop by (simp add: r)
qed

theorem stitchSegments_terminates_witness:
  "length [True, False] = length [Segment exA exB, Segment exC exB] \<and>
   scanPass (samePoint defaultTolerance) [Segment exA exB, Segment exC exB]
      ([exA, exB], [True, False]) = ([exA, exB, exC], [True, True], True) \<and>
   usedSet [True, False] \<subset> usedSet [True, True] \<and>
   (\<exists>r. extendLoop (samePoint defaultTolerance) [Segment exA exB, Segment exC exB]
      ([exA, exB], [True, False]) = Some r)"
proof -
  have len: "length [True, False] = length [Segment exA exB, Segment exC exB]" by simp
  have ev: "scanPass (samePoint defaultTolerance) [Segment exA exB, Segment exC exB]
      ([exA, exB], [True, False]) = ([exA, exB, exC], [True, True], True)"
    by (simp add: scanPass_def scanStep_def samePoint_iff defaultTolerance_def
        distanceToSquared_def exA_def exB_def exC_def)
  note inst = stitchSegments_terminates[of "[Segment exA exB, Segment exC exB]" defaultTolerance,
      THEN conjunct2, THEN spec[of _ "[exA, exB]"], THEN spec[of _ "[True, False]"],
      THEN mp, OF len]
  from inst have "usedSet [True, False] \<subset> usedSet [True, True]"
    by (simp add: ev)
  moreover from inst
  have "\<exists>r. extendLoop (samePoint defaultTolerance) [Segment exA exB, Segment exC exB]
           ([exA, exB], [True, False]) = Some r"
    by (rule conjunct1)
  ultimately have "usedSet [True, False] \<subset> usedSet [True, True] \<and>
   (\<exists>r. extendLoop (samePoint defaultTolerance) [Segment exA exB, Segment exC exB]
      ([exA, exB], [True, False]) = Some r)" by (rule conjI)
  then show ?thesis using len ev by (intro conjI) (simp_all only: simp_thms)
qed



section \<open>Stitching: open chains are found whatever the order\<close>

lemma edgesOf_subset: "e \<in> edgesOf p \<Longrightarrow> e \<subseteq> set p"
  by (induction p rule: edgesOf.induct) auto

lemma edgesOf_snoc: "p \<noteq> [] \<Longrightarrow> edgesOf (p @ [v]) = insert {last p, v} (edgesOf p)"
  by (induction p rule: edgesOf.induct) auto

lemma edgesOf_Cons: "p \<noteq> [] \<Longrightarrow> edgesOf (v # p) = insert {v, hd p} (edgesOf p)"
  by (cases p) auto

lemma edgesOf_append:
  "xs \<noteq> [] \<Longrightarrow> ys \<noteq> [] \<Longrightarrow>
     edgesOf (xs @ ys) = insert {last xs, hd ys} (edgesOf xs \<union> edgesOf ys)"
proof (induction xs rule: edgesOf.induct)
  case (1 a b r)
  then show ?case by auto
next
  case (2 a)
  then show ?case by (cases ys) auto
next
  case 3
  then show ?case by simp
qed

lemma edgesOf_rev: "edgesOf (rev p) = edgesOf p"
proof (induction p rule: edgesOf.induct)
  case (1 a b r)
  have "edgesOf (rev (a # b # r)) = edgesOf (rev (b # r) @ [a])" by simp
  also have "\<dots> = insert {last (rev (b # r)), a} (edgesOf (rev (b # r)))"
    by (rule edgesOf_snoc) simp
  also have "\<dots> = insert {a, b} (edgesOf (b # r))" using 1 by (simp add: insert_commute)
  finally show ?case by simp
qed simp_all

lemma edgesOf_split:
  "e \<in> edgesOf c \<Longrightarrow> \<exists>pre u v post. c = pre @ u # v # post \<and> e = {u, v}"
proof (induction c rule: edgesOf.induct)
  case (1 a b r)
  show ?case
  proof (cases "e = {a, b}")
    case True
    then have "a # b # r = [] @ a # b # r \<and> e = {a, b}" by simp
    then show ?thesis by blast
  next
    case False
    then have "e \<in> edgesOf (b # r)" using 1(2) by simp
    from 1(1)[OF this] obtain pre u v post where "b # r = pre @ u # v # post" "e = {u, v}"
      by blast
    then have "a # b # r = (a # pre) @ u # v # post \<and> e = {u, v}" by simp
    then show ?thesis by blast
  qed
qed simp_all

lemma edgesOf_mid: "{u, v} \<in> edgesOf (pre @ u # v # post)"
  by (induction pre rule: edgesOf.induct) auto

lemma adjacent_after:
  assumes d: "distinct (pre @ p @ post)" and len: "2 \<le> length p"
    and e: "e \<in> edgesOf (pre @ p @ post)" and l: "last p \<in> e" and n: "e \<notin> edgesOf p"
  shows "\<exists>v post'. post = v # post' \<and> e = {last p, v}"
proof -
  have pne: "p \<noteq> []" using len by auto
  have lp: "last p \<in> set p" using pne by simp
  have hl: "hd p \<noteq> last p"
  proof -
    obtain a q where p: "p = a # q" using pne by (cases p) auto
    then have "q \<noteq> []" using len by auto
    then have "last p \<in> set q" using p by simp
    moreover have "a \<notin> set q" using d p by simp
    ultimately show ?thesis using p by auto
  qed
  have notpre: "e \<notin> edgesOf pre"
  proof
    assume "e \<in> edgesOf pre"
    then have "last p \<in> set pre" using edgesOf_subset l by blast
    then show False using d lp by auto
  qed
  have notpost: "e \<notin> edgesOf post"
  proof
    assume "e \<in> edgesOf post"
    then have "last p \<in> set post" using edgesOf_subset l by blast
    then show False using d lp by auto
  qed
  have mid: "e \<in> edgesOf (p @ post)"
  proof (cases "pre = []")
    case True
    then show ?thesis using e by simp
  next
    case False
    have "p @ post \<noteq> []" using pne by simp
    from edgesOf_append[OF False this] e notpre
    have "e = {last pre, hd (p @ post)} \<or> e \<in> edgesOf (p @ post)" by auto
    moreover have "e \<noteq> {last pre, hd (p @ post)}"
    proof
      assume "e = {last pre, hd (p @ post)}"
      then have "last p = last pre \<or> last p = hd p" using l pne by auto
      moreover have "last pre \<in> set pre" using False by simp
      ultimately show False using hl d lp by auto
    qed
    ultimately show ?thesis by blast
  qed
  show ?thesis
  proof (cases post)
    case Nil
    then show ?thesis using mid n by simp
  next
    case (Cons v post')
    then have "post \<noteq> []" by simp
    from edgesOf_append[OF pne this] mid n notpost
    have "e = {last p, hd post}" by auto
    then show ?thesis using Cons by simp
  qed
qed

lemma adjacent_before:
  assumes d: "distinct (pre @ p @ post)" and len: "2 \<le> length p"
    and e: "e \<in> edgesOf (pre @ p @ post)" and l: "hd p \<in> e" and n: "e \<notin> edgesOf p"
  shows "\<exists>v pre'. pre = pre' @ [v] \<and> e = {v, hd p}"
proof -
  have pne: "p \<noteq> []" using len by auto
  have "distinct (rev post @ rev p @ rev pre)" using d by auto
  moreover have "2 \<le> length (rev p)" using len by simp
  moreover have "e \<in> edgesOf (rev post @ rev p @ rev pre)"
    using e edgesOf_rev[of "pre @ p @ post"] by simp
  moreover have "last (rev p) \<in> e" using l pne by (simp add: last_rev)
  moreover have "e \<notin> edgesOf (rev p)" using n by (simp add: edgesOf_rev)
  ultimately obtain v r where "rev pre = v # r" "e = {last (rev p), v}"
    using adjacent_after[of "rev post" "rev p" "rev pre" e] by blast
  then have "pre = rev r @ [v] \<and> e = {v, hd p}"
    using pne by (auto simp: last_rev insert_commute rev_swap)
  then show ?thesis by blast
qed

lemma usedEdges_mark:
  "j < length u \<Longrightarrow> usedEdges segments (u[j := True]) = insert (edgeSet (segments ! j)) (usedEdges segments u)"
  by (simp add: usedEdges_def usedSet_mark)

lemma unused_edge:
  assumes "distinct (map edgeSet segments)" "length u = length segments" "j < length segments" "\<not> u ! j"
  shows "edgeSet (segments ! j) \<notin> usedEdges segments u"
proof
  assume "edgeSet (segments ! j) \<in> usedEdges segments u"
  then obtain k where k: "k \<in> usedSet u" "edgeSet (segments ! k) = edgeSet (segments ! j)"
    by (auto simp: usedEdges_def)
  then have kl: "k < length segments" "u ! k" using assms(2) by (auto simp: usedSet_def)
  have "map edgeSet segments ! k = map edgeSet segments ! j" using k(2) kl assms(3) by simp
  moreover have "k < length (map edgeSet segments)" "j < length (map edgeSet segments)"
    using kl(1) assms(3) by simp_all
  ultimately have "k = j" using assms(1) nth_eq_iff_index_eq by blast
  then show False using kl(2) assms(4) by simp
qed

lemma chain_disjoint:
  assumes "distinct (concat chs)" "c \<in> set chs" "d \<in> set chs" "v \<in> set c" "v \<in> set d"
  shows "c = d"
  using assms by (auto simp: distinct_concat_iff)

lemma edge_in_chain:
  assumes "distinct (concat chs)" "c \<in> set chs" "e \<in> chainEdges chs" "v \<in> e" "v \<in> set c"
  shows "e \<in> edgesOf c"
proof -
  obtain d where d: "d \<in> set chs" "e \<in> edgesOf d" using assms(3) by (auto simp: chainEdges_def)
  then have "v \<in> set d" using edgesOf_subset assms(4) by blast
  then have "c = d" using chain_disjoint[OF assms(1,2) d(1) assms(5)] by simp
  then show ?thesis using d(2) by simp
qed

lemma segment_edge:
  "chainsOK same chs segments \<Longrightarrow> j < length segments \<Longrightarrow>
     edgeSet (segments ! j) \<in> chainEdges chs"
  by (auto simp: chainsOK_def)

lemma edge_points:
  assumes "e \<in> chainEdges chs" "v \<in> e"
  shows "v \<in> set (concat chs)"
  using assms edgesOf_subset by (fastforce simp: chainEdges_def)

lemma chain_list_facts:
  assumes ok: "chainsOK same chs segments" and c: "c \<in> set chs"
    and L: "pre @ p @ post = c \<or> pre @ p @ post = rev c"
  shows "distinct (pre @ p @ post)" and "set (pre @ p @ post) = set c"
    and "edgesOf (pre @ p @ post) = edgesOf c"
proof -
  have "distinct (concat chs)" using ok unfolding chainsOK_def by blast
  then have "distinct c" using c unfolding distinct_concat_iff by blast
  then have "distinct (rev c)" by simp
  then show "distinct (pre @ p @ post)" using \<open>distinct c\<close> L by (elim disjE) simp_all
  have "set (rev c) = set c" by simp
  then show "set (pre @ p @ post) = set c" using L by (elim disjE) simp_all
  have "edgesOf (rev c) = edgesOf c" by (rule edgesOf_rev)
  then show "edgesOf (pre @ p @ post) = edgesOf c" using L by (elim disjE) simp_all
qed

lemma chainInv_append:
  assumes ok: "chainsOK same chs segments" and c: "c \<in> set chs"
    and inv: "chainInv segments c E0 p u" and len: "length u = length segments"
    and j: "j < length segments" and un: "\<not> u ! j"
    and es: "edgeSet (segments ! j) = {w, v}" and w: "last p = w"
  shows "chainInv segments c E0 (p @ [v]) (u[j := True])"
proof -
  obtain pre post where L: "pre @ p @ post = c \<or> pre @ p @ post = rev c"
    using inv unfolding chainInv_def by blast
  have len2: "2 \<le> length p" and ue: "usedEdges segments u = E0 \<union> edgesOf p"
    using inv unfolding chainInv_def by simp_all
  note f = chain_list_facts[OF ok c L]
  have pne: "p \<noteq> []" using len2 by auto
  have "last p \<in> set (pre @ p @ post)" using pne by simp
  then have wc: "w \<in> set c" unfolding f(2) w .
  have ec: "{w, v} \<in> chainEdges chs" using segment_edge[OF ok j] es by simp
  have d: "distinct (concat chs)" using ok by (simp add: chainsOK_def)
  have "{w, v} \<in> edgesOf c" by (rule edge_in_chain[OF d c ec _ wc]) simp
  then have eL: "{w, v} \<in> edgesOf (pre @ p @ post)" using f(3) by simp
  have dm: "distinct (map edgeSet segments)" using ok by (simp add: chainsOK_def)
  have "{w, v} \<notin> usedEdges segments u" using unused_edge[OF dm len j un] es by simp
  then have np: "{w, v} \<notin> edgesOf p" using ue by simp
  have "last p \<in> {w, v}" using w by simp
  from adjacent_after[OF f(1) len2 eL this np]
  obtain v' post' where post: "post = v' # post'" and eq: "{w, v} = {last p, v'}" by blast
  have v': "v' = v" using eq w by (auto simp: doubleton_eq_iff)
  have 1: "pre @ (p @ [v]) @ post' = c \<or> pre @ (p @ [v]) @ post' = rev c"
    using L unfolding post v' by simp
  have 2: "usedEdges segments (u[j := True]) = E0 \<union> edgesOf (p @ [v])"
    using len j ue es w pne by (simp add: usedEdges_mark edgesOf_snoc)
  have "\<exists>pre post. pre @ (p @ [v]) @ post = c \<or> pre @ (p @ [v]) @ post = rev c"
    using 1 by blast
  then show ?thesis unfolding chainInv_def using 2 len2 by simp
qed

lemma chainInv_prepend:
  assumes ok: "chainsOK same chs segments" and c: "c \<in> set chs"
    and inv: "chainInv segments c E0 p u" and len: "length u = length segments"
    and j: "j < length segments" and un: "\<not> u ! j"
    and es: "edgeSet (segments ! j) = {v, w}" and w: "hd p = w"
  shows "chainInv segments c E0 (v # p) (u[j := True])"
proof -
  obtain pre post where L: "pre @ p @ post = c \<or> pre @ p @ post = rev c"
    using inv unfolding chainInv_def by blast
  have len2: "2 \<le> length p" and ue: "usedEdges segments u = E0 \<union> edgesOf p"
    using inv unfolding chainInv_def by simp_all
  note f = chain_list_facts[OF ok c L]
  have pne: "p \<noteq> []" using len2 by auto
  have "hd p \<in> set (pre @ p @ post)" using pne by simp
  then have wc: "w \<in> set c" unfolding f(2) w .
  have ec: "{v, w} \<in> chainEdges chs" using segment_edge[OF ok j] es by simp
  have d: "distinct (concat chs)" using ok by (simp add: chainsOK_def)
  have "{v, w} \<in> edgesOf c" by (rule edge_in_chain[OF d c ec _ wc]) simp
  then have eL: "{v, w} \<in> edgesOf (pre @ p @ post)" using f(3) by simp
  have dm: "distinct (map edgeSet segments)" using ok by (simp add: chainsOK_def)
  have "{v, w} \<notin> usedEdges segments u" using unused_edge[OF dm len j un] es by simp
  then have np: "{v, w} \<notin> edgesOf p" using ue by simp
  have "hd p \<in> {v, w}" using w by simp
  from adjacent_before[OF f(1) len2 eL this np]
  obtain v' pre' where pre: "pre = pre' @ [v']" and eq: "{v, w} = {v', hd p}" by blast
  have v': "v' = v" using eq w by (auto simp: doubleton_eq_iff)
  have 1: "pre' @ (v # p) @ post = c \<or> pre' @ (v # p) @ post = rev c"
    using L unfolding pre v' by simp
  have 2: "usedEdges segments (u[j := True]) = E0 \<union> edgesOf (v # p)"
    using len j ue es w pne by (simp add: usedEdges_mark edgesOf_Cons)
  have "\<exists>pre post. pre @ (v # p) @ post = c \<or> pre @ (v # p) @ post = rev c"
    using 1 by blast
  then show ?thesis unfolding chainInv_def using 2 len2 by simp
qed

lemma chainInv_points:
  assumes ok: "chainsOK same chs segments" and c: "c \<in> set chs"
    and inv: "chainInv segments c E0 p u"
  shows "hd p \<in> set (concat chs)" and "last p \<in> set (concat chs)"
proof -
  obtain pre post where L: "pre @ p @ post = c \<or> pre @ p @ post = rev c"
    using inv unfolding chainInv_def by blast
  have pne: "p \<noteq> []" using inv by (auto simp: chainInv_def)
  have "set p \<subseteq> set c" using chain_list_facts(2)[OF ok c L] by auto
  then have sub: "set p \<subseteq> set (concat chs)" using c by auto
  have "hd p \<in> set p" "last p \<in> set p" using pne by simp_all
  then show "hd p \<in> set (concat chs)" and "last p \<in> set (concat chs)"
    using sub by blast+
qed

lemma scanStep_unused_cases:
  assumes "\<not> u ! j" and "scanStep same segments j (p, u, e) = (p', u', e')"
  shows "(same (last p) (seg_start (segments ! j)) \<and> p' = p @ [seg_end (segments ! j)] \<and>
            u' = u[j := True] \<and> e') \<or>
         (same (last p) (seg_end (segments ! j)) \<and> p' = p @ [seg_start (segments ! j)] \<and>
            u' = u[j := True] \<and> e') \<or>
         (same (hd p) (seg_end (segments ! j)) \<and> p' = seg_start (segments ! j) # p \<and>
            u' = u[j := True] \<and> e') \<or>
         (same (hd p) (seg_start (segments ! j)) \<and> p' = seg_end (segments ! j) # p \<and>
            u' = u[j := True] \<and> e') \<or>
         (\<not> same (last p) (seg_start (segments ! j)) \<and> \<not> same (last p) (seg_end (segments ! j)) \<and>
          \<not> same (hd p) (seg_end (segments ! j)) \<and> \<not> same (hd p) (seg_start (segments ! j)) \<and>
          p' = p \<and> u' = u \<and> e' = e)"
  using assms by (simp add: scanStep_def split: if_splits)

lemma chainInv_step:
  assumes ok: "chainsOK same chs segments" and c: "c \<in> set chs"
    and inv: "chainInv segments c E0 p u" and len: "length u = length segments"
    and j: "j < length segments"
    and r: "scanStep same segments j (p, u, e) = (p', u', e')"
  shows "chainInv segments c E0 p' u'"
proof (cases "u ! j")
  case True
  then show ?thesis using r inv by (simp add: scanStep_def)
next
  case False
  let ?a = "seg_start (segments ! j)" and ?b = "seg_end (segments ! j)"
  have es: "edgeSet (segments ! j) = {?a, ?b}" by (simp add: edgeSet_def)
  have es': "edgeSet (segments ! j) = {?b, ?a}" by (auto simp: edgeSet_def)
  have ec: "{?a, ?b} \<in> chainEdges chs" using segment_edge[OF ok j] es by simp
  have ab: "?a \<in> set (concat chs)" "?b \<in> set (concat chs)"
    using edge_points[OF ec] by auto
  note pp = chainInv_points[OF ok c inv]
  have same_eq: "\<And>v w. v \<in> set (concat chs) \<Longrightarrow> w \<in> set (concat chs) \<Longrightarrow> same v w \<longleftrightarrow> v = w"
    using ok unfolding chainsOK_def by blast
  have s1: "same (last p) ?a \<longleftrightarrow> last p = ?a" and s2: "same (last p) ?b \<longleftrightarrow> last p = ?b"
    and s3: "same (hd p) ?b \<longleftrightarrow> hd p = ?b" and s4: "same (hd p) ?a \<longleftrightarrow> hd p = ?a"
    using same_eq pp ab by auto
  consider (t1) "last p = ?a" "p' = p @ [?b]" "u' = u[j := True]"
    | (t2) "last p = ?b" "p' = p @ [?a]" "u' = u[j := True]"
    | (t3) "hd p = ?b" "p' = ?a # p" "u' = u[j := True]"
    | (t4) "hd p = ?a" "p' = ?b # p" "u' = u[j := True]"
    | (none) "p' = p" "u' = u"
    using scanStep_unused_cases[OF False r] unfolding s1 s2 s3 s4 by blast
  then show ?thesis
  proof cases
    case t1
    then show ?thesis using chainInv_append[OF ok c inv len j False es] by simp
  next
    case t2
    then show ?thesis using chainInv_append[OF ok c inv len j False es'] by simp
  next
    case t3
    then show ?thesis using chainInv_prepend[OF ok c inv len j False es] by simp
  next
    case t4
    then show ?thesis using chainInv_prepend[OF ok c inv len j False es'] by simp
  next
    case none
    then show ?thesis using inv by simp
  qed
qed

lemma scan_flag_stays:
  "fold (scanStep same segments) js (p, u, True) = (p', u', e') \<Longrightarrow> e'"
proof (induction js arbitrary: p u)
  case Nil
  then show ?case by simp
next
  case (Cons j js)
  obtain p1 u1 e1 where s: "scanStep same segments j (p, u, True) = (p1, u1, e1)"
    by (cases "scanStep same segments j (p, u, True)") auto
  then have "e1" using scanStep_cases[OF s] by auto
  then show ?case using Cons s by simp
qed

lemma scan_quiet:
  "fold (scanStep same segments) js (p, u, False) = (p', u', False) \<Longrightarrow>
     \<forall>j\<in>set js. scanStep same segments j (p, u, False) = (p, u, False)"
proof (induction js)
  case Nil
  then show ?case by simp
next
  case (Cons j js)
  obtain p1 u1 e1 where s: "scanStep same segments j (p, u, False) = (p1, u1, e1)"
    by (cases "scanStep same segments j (p, u, False)") auto
  have r: "fold (scanStep same segments) js (p1, u1, e1) = (p', u', False)"
    using Cons.prems s by simp
  have "\<not> e1" using scan_flag_stays[of same segments js p1 u1 p' u' False] r by auto
  then have "p1 = p \<and> u1 = u" using scanStep_cases[OF s] by auto
  then show ?case using Cons.IH r s \<open>\<not> e1\<close> by simp
qed

lemma chain_complete:
  assumes ok: "chainsOK same chs segments" and c: "c \<in> set chs"
    and inv: "chainInv segments c E0 p u" and E0: "E0 \<inter> edgesOf c = {}"
    and len: "length u = length segments"
    and quiet: "scanPass same segments (p, u) = (p, u, False)"
  shows "p = c \<or> p = rev c"
proof -
  obtain pre post where L: "pre @ p @ post = c \<or> pre @ p @ post = rev c"
    using inv unfolding chainInv_def by blast
  have len2: "2 \<le> length p" and ue: "usedEdges segments u = E0 \<union> edgesOf p"
    using inv unfolding chainInv_def by simp_all
  note f = chain_list_facts[OF ok c L]
  have pne: "p \<noteq> []" using len2 by auto
  note pp = chainInv_points[OF ok c inv]
  have same_eq: "\<And>v w. v \<in> set (concat chs) \<Longrightarrow> w \<in> set (concat chs) \<Longrightarrow> same v w \<longleftrightarrow> v = w"
    using ok unfolding chainsOK_def by blast
  have q: "\<And>j. j < length segments \<Longrightarrow> scanStep same segments j (p, u, False) = (p, u, False)"
    using scan_quiet[of same segments "[0..<length segments]" p u p u] quiet
    by (simp add: scanPass_def)
  have free: "\<exists>j<length segments. \<not> u ! j \<and> edgeSet (segments ! j) = e"
    if eL: "e \<in> edgesOf (pre @ p @ post)" and np: "e \<notin> edgesOf p" for e
  proof -
    have ec: "e \<in> edgesOf c" using eL f(3) by simp
    then have "e \<in> chainEdges chs" using c by (auto simp: chainEdges_def)
    then have "e \<in> edgeSet ` set segments" using ok unfolding chainsOK_def by blast
    then obtain j where j: "j < length segments" "edgeSet (segments ! j) = e"
      by (auto simp: in_set_conv_nth)
    have "e \<notin> usedEdges segments u" using ue np ec E0 by auto
    then have "\<not> u ! j" using j len by (auto simp: usedEdges_def usedSet_def)
    then show ?thesis using j by blast
  qed
  have post: "post = []"
  proof (rule ccontr)
    assume "post \<noteq> []"
    then obtain v post' where po: "post = v # post'" by (cases post) auto
    have "pre @ p @ post = (pre @ butlast p) @ last p # v # post'"
      using pne po by simp
    then have eL: "{last p, v} \<in> edgesOf (pre @ p @ post)"
      using edgesOf_mid[of "last p" v "pre @ butlast p" post'] by simp
    have "v \<notin> set p" using f(1) po by auto
    then have np: "{last p, v} \<notin> edgesOf p" using edgesOf_subset by fastforce
    from free[OF eL np] obtain j where j: "j < length segments" "\<not> u ! j"
      "edgeSet (segments ! j) = {last p, v}" by blast
    have ab: "seg_start (segments ! j) \<in> set (concat chs)" "seg_end (segments ! j) \<in> set (concat chs)"
      using edge_points[OF segment_edge[OF ok j(1)]] by (auto simp: edgeSet_def)
    have "last p = seg_start (segments ! j) \<or> last p = seg_end (segments ! j)"
      using j(3) by (auto simp: edgeSet_def doubleton_eq_iff)
    then have "same (last p) (seg_start (segments ! j)) \<or> same (last p) (seg_end (segments ! j))"
      using same_eq[OF pp(2) ab(1)] same_eq[OF pp(2) ab(2)] by blast
    then show False using scanStep_unused_cases[OF j(2) q[OF j(1)]] by blast
  qed
  have pre: "pre = []"
  proof (rule ccontr)
    assume "pre \<noteq> []"
    then obtain v pre' where pr: "pre = pre' @ [v]" by (cases pre rule: rev_cases) auto
    obtain h t where p: "p = h # t" using pne by (cases p) auto
    have "pre @ p @ post = pre' @ v # h # (t @ post)"
      using pr p by simp
    then have eL: "{v, hd p} \<in> edgesOf (pre @ p @ post)"
      using edgesOf_mid[of v h pre' "t @ post"] p by simp
    have "v \<notin> set p" using f(1) pr by auto
    then have np: "{v, hd p} \<notin> edgesOf p" using edgesOf_subset by fastforce
    from free[OF eL np] obtain j where j: "j < length segments" "\<not> u ! j"
      "edgeSet (segments ! j) = {v, hd p}" by blast
    have ab: "seg_start (segments ! j) \<in> set (concat chs)" "seg_end (segments ! j) \<in> set (concat chs)"
      using edge_points[OF segment_edge[OF ok j(1)]] by (auto simp: edgeSet_def)
    have "hd p = seg_start (segments ! j) \<or> hd p = seg_end (segments ! j)"
      using j(3) by (auto simp: edgeSet_def doubleton_eq_iff)
    then have "same (hd p) (seg_start (segments ! j)) \<or> same (hd p) (seg_end (segments ! j))"
      using same_eq[OF pp(1) ab(1)] same_eq[OF pp(1) ab(2)] by blast
    then show False using scanStep_unused_cases[OF j(2) q[OF j(1)]] by blast
  qed
  show ?thesis using L pre post by simp
qed

lemma chainEdges_snoc: "chainEdges (dn @ [c]) = chainEdges dn \<union> edgesOf c"
  by (auto simp: chainEdges_def)

lemma edges_disjoint:
  assumes d: "distinct (concat chs)" and c: "c \<in> set chs" and dn: "set dn \<subseteq> set chs"
    and cn: "c \<notin> set dn"
  shows "chainEdges dn \<inter> edgesOf c = {}"
proof (rule ccontr)
  assume "chainEdges dn \<inter> edgesOf c \<noteq> {}"
  then obtain e d' where e: "e \<in> edgesOf c" "d' \<in> set dn" "e \<in> edgesOf d'"
    by (auto simp: chainEdges_def)
  obtain pre v w post where "c = pre @ v # w # post" "e = {v, w}"
    using edgesOf_split[OF e(1)] by blast
  then have "v \<in> set c" "v \<in> e" by auto
  moreover have "v \<in> set d'" using edgesOf_subset[OF e(3)] \<open>v \<in> e\<close> by blast
  moreover have "d' \<in> set chs" using e(2) dn by blast
  ultimately have "c = d'" using chain_disjoint[OF d c] by blast
  then show False using cn e(2) by simp
qed

lemma seedStep_chains:
  assumes ok: "chainsOK same chs segments" and inv: "doneInv segments chs stitched used"
    and i: "i < length segments"
  shows "\<exists>stitched' used'. seedStep same segments i (stitched, used) = Some (stitched', used') \<and>
           doneInv segments chs stitched' used'"
proof (cases "used ! i")
  case True
  then have "seedStep same segments i (stitched, used) = Some (stitched, used)"
    by (simp add: seedStep_def)
  then show ?thesis using inv by blast
next
  case False
  let ?a = "seg_start (segments ! i)" and ?b = "seg_end (segments ! i)"
  let ?E0 = "usedEdges segments used"
  let ?u0 = "used[i := True]"
  have len: "length used = length segments" using inv unfolding doneInv_def by blast
  obtain dn where dn: "set dn \<subseteq> set chs" "distinct dn" "?E0 = chainEdges dn"
    "list_all2 samePolyline stitched dn"
    using inv unfolding doneInv_def by blast
  have d: "distinct (concat chs)" and dm: "distinct (map edgeSet segments)"
    using ok unfolding chainsOK_def by blast+
  have es: "edgeSet (segments ! i) = {?a, ?b}" by (simp add: edgeSet_def)
  have "{?a, ?b} \<in> chainEdges chs" using segment_edge[OF ok i] es by simp
  then obtain c where c: "c \<in> set chs" "{?a, ?b} \<in> edgesOf c" by (auto simp: chainEdges_def)
  have nu: "{?a, ?b} \<notin> ?E0" using unused_edge[OF dm len i False] es by simp
  have cn: "c \<notin> set dn" using nu c(2) dn(3) by (auto simp: chainEdges_def)
  have E0: "?E0 \<inter> edgesOf c = {}" unfolding dn(3) by (rule edges_disjoint[OF d c(1) dn(1) cn])
  obtain pre v w post where sp: "c = pre @ v # w # post" "{?a, ?b} = {v, w}"
    using edgesOf_split[OF c(2)] by blast
  have ori: "(?a = v \<and> ?b = w) \<or> (?a = w \<and> ?b = v)"
    using sp(2) by (auto simp: doubleton_eq_iff)
  have ex: "\<exists>pre' post'. pre' @ [?a, ?b] @ post' = c \<or> pre' @ [?a, ?b] @ post' = rev c"
  proof (rule disjE[OF ori])
    assume "?a = v \<and> ?b = w"
    then have "pre @ [?a, ?b] @ post = c" using sp(1) by simp
    then show ?thesis by blast
  next
    assume "?a = w \<and> ?b = v"
    then have "rev post @ [?a, ?b] @ rev pre = rev c" using sp(1) by simp
    then show ?thesis by blast
  qed
  have ue0: "usedEdges segments ?u0 = ?E0 \<union> edgesOf [?a, ?b]"
    using i len es by (simp add: usedEdges_mark)
  have inv0: "chainInv segments c ?E0 [?a, ?b] ?u0"
    unfolding chainInv_def using ex ue0 by simp
  have l0: "length ?u0 = length segments" using len by simp
  have "\<exists>p' u'. extendLoop same segments ([?a, ?b], ?u0) = Some (p', u') \<and>
           chainInv segments c ?E0 p' u' \<and> length u' = length segments \<and>
           scanPass same segments (p', u') = (p', u', False)"
  proof (rule extendLoop_rule[of "chainInv segments c ?E0", OF inv0 l0])
    fix p u e j p' u' e'
    assume "chainInv segments c ?E0 p u" "length u = length segments" "j < length segments"
      "scanStep same segments j (p, u, e) = (p', u', e')"
    then show "chainInv segments c ?E0 p' u'" by (rule chainInv_step[OF ok c(1)])
  qed
  then obtain p' u' where run: "extendLoop same segments ([?a, ?b], ?u0) = Some (p', u')"
    and inv': "chainInv segments c ?E0 p' u'" and l': "length u' = length segments"
    and quiet: "scanPass same segments (p', u') = (p', u', False)"
    by blast
  have pc: "p' = c \<or> p' = rev c" by (rule chain_complete[OF ok c(1) inv' E0 l' quiet])
  then have sp': "samePolyline p' c" by (simp add: samePolyline_def)
  have "edgesOf p' = edgesOf c" using pc edgesOf_rev[of c] by auto
  then have ue': "usedEdges segments u' = chainEdges (dn @ [c])"
    using inv' dn(3) unfolding chainInv_def chainEdges_snoc by simp
  have "list_all2 samePolyline (stitched @ [p']) (dn @ [c])"
    using dn(4) sp' by (simp add: list_all2_appendI)
  moreover have "set (dn @ [c]) \<subseteq> set chs" "distinct (dn @ [c])"
    using dn(1,2) c(1) cn by auto
  ultimately have "doneInv segments chs (stitched @ [p']) u'"
    unfolding doneInv_def using l' ue' by blast
  moreover have "seedStep same segments i (stitched, used) = Some (stitched @ [p'], u')"
    using False run by (simp add: seedStep_def)
  ultimately show ?thesis by blast
qed

lemma seedLoop_chains:
  assumes ok: "chainsOK same chs segments" and inv: "doneInv segments chs stitched used"
    and "set is \<subseteq> {..<length segments}"
  shows "\<exists>stitched' used'. seedLoop same segments is (stitched, used) = Some (stitched', used') \<and>
           doneInv segments chs stitched' used'"
  using inv assms(3)
proof (induction "is" arbitrary: stitched used)
  case Nil
  then show ?case by simp
next
  case (Cons i "is")
  have i: "i < length segments" using Cons.prems(2) by simp
  obtain s1 u1 where st: "seedStep same segments i (stitched, used) = Some (s1, u1)"
    and inv1: "doneInv segments chs s1 u1"
    using seedStep_chains[OF ok Cons.prems(1) i] by blast
  have "set is \<subseteq> {..<length segments}" using Cons.prems(2) by simp
  from Cons.IH[OF inv1 this]
  obtain s2 u2 where r: "seedLoop same segments is (s1, u1) = Some (s2, u2)"
    and inv2: "doneInv segments chs s2 u2"
    by blast
  have "seedLoop same segments (i # is) (stitched, used) = Some (s2, u2)"
    using st r by simp
  then show ?case using inv2 by blast
qed

lemma usedEdges_all:
  assumes "usedSet u = {..<length segments}"
  shows "usedEdges segments u = edgeSet ` set segments"
proof -
  have "set segments = (\<lambda>j. segments ! j) ` {..<length segments}"
    by (auto simp: in_set_conv_nth)
  then show ?thesis unfolding usedEdges_def assms by auto
qed

lemma stitchBy_chains:
  assumes ok: "chainsOK same chs segments"
  shows "\<exists>out. stitchBy same segments = Some out \<and> sameContours out chs"
proof -
  have sub: "set [0..<length segments] \<subseteq> {..<length segments}" by auto
  have init: "doneInv segments chs [] (replicate (length segments) False)"
    unfolding doneInv_def
    by (intro conjI exI[of _ "[]"]) (simp_all add: usedEdges_def chainEdges_def)
  obtain out u where r: "seedLoop same segments [0..<length segments]
        ([], replicate (length segments) False) = Some (out, u)"
    and inv: "doneInv segments chs out u"
    using seedLoop_chains[OF ok init sub] by blast
  obtain out2 u2 where r2: "seedLoop same segments [0..<length segments]
        ([], replicate (length segments) False) = Some (out2, u2)"
    and all: "set [0..<length segments] \<subseteq> usedSet u2" and inv2: "stitchInv segments out2 u2"
    using seedLoop_conserve[OF stitchInv_init sub, of same] by blast
  have u2: "u2 = u" using r r2 by simp
  have "length u = length segments" using inv unfolding doneInv_def by blast
  then have "usedSet u = {..<length segments}" using all u2 usedSet_bound[of u] by auto
  then have "usedEdges segments u = edgeSet ` set segments" by (rule usedEdges_all)
  moreover have "edgeSet ` set segments = chainEdges chs"
    using ok by (simp add: chainsOK_def)
  ultimately have full: "usedEdges segments u = chainEdges chs" by simp
  obtain dn where dn: "set dn \<subseteq> set chs" "distinct dn" "usedEdges segments u = chainEdges dn"
    "list_all2 samePolyline out dn"
    using inv unfolding doneInv_def by blast
  have d: "distinct (concat chs)" using ok unfolding chainsOK_def by blast
  have cover: "set chs \<subseteq> set dn"
  proof
    fix c assume c: "c \<in> set chs"
    have "2 \<le> length c" using ok c unfolding chainsOK_def by blast
    then obtain v w r where "c = v # w # r" by (cases c rule: edgesOf.cases) auto
    then have "{v, w} \<in> edgesOf c" by simp
    then have "chainEdges dn \<inter> edgesOf c \<noteq> {}"
      using full dn(3) c by (auto simp: chainEdges_def)
    then show "c \<in> set dn" using edges_disjoint[OF d c dn(1)] by blast
  qed
  have sdn: "set dn = set chs" using cover dn(1) by blast
  have 1: "\<forall>p\<in>set out. \<exists>q\<in>set chs. samePolyline p q"
    using dn(4) sdn by (metis in_set_conv_nth list_all2_conv_all_nth)
  have 2: "\<forall>q\<in>set chs. \<exists>p\<in>set out. samePolyline p q"
    using dn(4) sdn by (metis in_set_conv_nth list_all2_conv_all_nth)
  have "stitchBy same segments = Some out" using r by (simp add: stitchBy_def)
  then show ?thesis using 1 2 unfolding sameContours_def by blast
qed

lemma chainsOK_perm:
  assumes "chainsOK same chs segments" and "mset segments' = mset segments"
  shows "chainsOK same chs segments'"
proof -
  have m: "mset (map edgeSet segments') = mset (map edgeSet segments)"
    using assms(2) by (metis mset_map)
  have "distinct (map edgeSet segments') \<longleftrightarrow> distinct (map edgeSet segments)"
    using m by (rule mset_eq_imp_distinct_iff)
  moreover have "set segments' = set segments" using assms(2) by (rule mset_eq_setD)
  ultimately show ?thesis using assms(1) unfolding chainsOK_def by simp
qed

lemma samePolyline_sym: "samePolyline p q \<Longrightarrow> samePolyline q p"
  by (auto simp: samePolyline_def)

lemma samePolyline_trans: "samePolyline p q \<Longrightarrow> samePolyline q r \<Longrightarrow> samePolyline p r"
  by (auto simp: samePolyline_def)

lemma sameContours_via:
  assumes "sameContours ps cs" "sameContours qs cs"
  shows "sameContours ps qs"
  unfolding sameContours_def
proof (intro conjI ballI)
  fix p assume "p \<in> set ps"
  then obtain c where c: "c \<in> set cs" "samePolyline p c"
    using assms(1) unfolding sameContours_def by blast
  then obtain q where "q \<in> set qs" "samePolyline q c"
    using assms(2) unfolding sameContours_def by blast
  then show "\<exists>q\<in>set qs. samePolyline p q"
    using c(2) samePolyline_sym samePolyline_trans by blast
next
  fix q assume "q \<in> set qs"
  then obtain c where c: "c \<in> set cs" "samePolyline q c"
    using assms(2) unfolding sameContours_def by blast
  then obtain p where "p \<in> set ps" "samePolyline p c"
    using assms(1) unfolding sameContours_def by blast
  then show "\<exists>p\<in>set ps. samePolyline p q"
    using c(2) samePolyline_sym samePolyline_trans by blast
qed

lemma distanceTo_self: "distanceTo a a = 0"
  by (simp add: distanceTo_def distanceToSquared_def)

lemma openChains_chainsOK:
  assumes "openChains tolerance chs segments"
  shows "chainsOK (samePoint tolerance) chs segments"
proof -
  have t: "0 < tolerance"
    and far: "\<And>a b. a \<in> set (concat chs) \<Longrightarrow> b \<in> set (concat chs) \<Longrightarrow> a \<noteq> b \<Longrightarrow>
        tolerance \<le> distanceTo a b"
    using assms unfolding openChains_def by blast+
  have "samePoint tolerance a b \<longleftrightarrow> a = b"
    if a: "a \<in> set (concat chs)" and b: "b \<in> set (concat chs)" for a b
  proof (cases "a = b")
    case True
    then show ?thesis using t by (simp add: samePoint_def distanceTo_self)
  next
    case False
    then have "tolerance \<le> distanceTo a b" using far a b by blast
    then show ?thesis using False by (simp add: samePoint_def)
  qed
  then have "\<forall>a\<in>set (concat chs). \<forall>b\<in>set (concat chs). samePoint tolerance a b \<longleftrightarrow> a = b"
    by blast
  then show ?thesis using assms unfolding openChains_def chainsOK_def by simp
qed

text \<open>
  Claim C1, as amended. When the segments form open chains (no point shared by more
  than two segments, no closed ring, meeting endpoints exactly equal and different
  points at least the tolerance apart), \<^verbatim>\<open>stitchSegments\<close> returns, for the list and
  for every permutation of it, the same set of polylines up to reversal: the chains
  themselves.
\<close>

theorem stitchSegments_chain_permutation:
  assumes "openChains tolerance chs segments" and "mset segments' = mset segments"
  shows "\<exists>out out'. stitchSegments segments tolerance = Some out \<and>
           stitchSegments segments' tolerance = Some out' \<and>
           sameContours out out' \<and> sameContours out chs \<and> sameContours out' chs"
proof -
  have ok: "chainsOK (samePoint tolerance) chs segments"
    by (rule openChains_chainsOK[OF assms(1)])
  have ok': "chainsOK (samePoint tolerance) chs segments'"
    by (rule chainsOK_perm[OF ok assms(2)])
  obtain out where o: "stitchBy (samePoint tolerance) segments = Some out" "sameContours out chs"
    using stitchBy_chains[OF ok] by blast
  obtain out' where o': "stitchBy (samePoint tolerance) segments' = Some out'" "sameContours out' chs"
    using stitchBy_chains[OF ok'] by blast
  have "sameContours out out'" by (rule sameContours_via[OF o(2) o'(2)])
  then show ?thesis using o o' unfolding stitchSegments_def by blast
qed

lemma le_distanceTo_iff:
  "0 \<le> t \<Longrightarrow> t \<le> distanceTo u v \<longleftrightarrow> t * t \<le> distanceToSquared u v"
proof -
  assume t: "0 \<le> t"
  have "sqrt (t * t) = t" using t by simp
  then have "t \<le> sqrt (distanceToSquared u v) \<longleftrightarrow>
        sqrt (t * t) \<le> sqrt (distanceToSquared u v)" by simp
  then show ?thesis unfolding distanceTo_def by (simp only: real_sqrt_le_iff)
qed

lemma exChain_open:
  "openChains defaultTolerance [[exA, exB, exC]] [Segment exA exB, Segment exC exB]"
proof -
  have t: "0 \<le> defaultTolerance" "0 < defaultTolerance" by (simp_all add: defaultTolerance_def)
  have d: "exA \<noteq> exB" "exA \<noteq> exC" "exB \<noteq> exC" by (simp_all add: exA_def exB_def exC_def)
  have far: "defaultTolerance \<le> distanceTo exA exB" "defaultTolerance \<le> distanceTo exB exA"
    "defaultTolerance \<le> distanceTo exA exC" "defaultTolerance \<le> distanceTo exC exA"
    "defaultTolerance \<le> distanceTo exB exC" "defaultTolerance \<le> distanceTo exC exB"
    unfolding le_distanceTo_iff[OF t(1)]
    by (simp_all add: defaultTolerance_def distanceToSquared_def exA_def exB_def exC_def)
  have e: "{exC, exB} = {exB, exC}" by auto
  have ne: "{exA, exB} \<noteq> {exC, exB}" using d by (auto simp: doubleton_eq_iff)
  show ?thesis
    unfolding openChains_def
    using t(2) d far ne by (simp add: edgeSet_def chainEdges_def e)
qed

theorem stitchSegments_chain_permutation_witness:
  "openChains defaultTolerance [[exA, exB, exC]] [Segment exA exB, Segment exC exB] \<and>
   mset [Segment exC exB, Segment exA exB] = mset [Segment exA exB, Segment exC exB] \<and>
   stitchSegments [Segment exA exB, Segment exC exB] defaultTolerance = Some [[exA, exB, exC]] \<and>
   stitchSegments [Segment exC exB, Segment exA exB] defaultTolerance = Some [[exC, exB, exA]] \<and>
   sameContours [[exA, exB, exC]] [[exC, exB, exA]]"
proof -
  have m: "mset [Segment exC exB, Segment exA exB] = mset [Segment exA exB, Segment exC exB]"
    by (simp add: add.commute)
  have ev: "stitchSegments [Segment exA exB, Segment exC exB] defaultTolerance
      = Some [[exA, exB, exC]]"
    by (simp add: stitchSegments_def stitchBy_def seedStep_def extendLoop.simps scanPass_def
        scanStep_def samePoint_iff defaultTolerance_def distanceToSquared_def
        exA_def exB_def exC_def)
  have ev': "stitchSegments [Segment exC exB, Segment exA exB] defaultTolerance
      = Some [[exC, exB, exA]]"
    by (simp add: stitchSegments_def stitchBy_def seedStep_def extendLoop.simps scanPass_def
        scanStep_def samePoint_iff defaultTolerance_def distanceToSquared_def
        exA_def exB_def exC_def)
  obtain out out' where "stitchSegments [Segment exA exB, Segment exC exB] defaultTolerance = Some out"
    "stitchSegments [Segment exC exB, Segment exA exB] defaultTolerance = Some out'"
    "sameContours out out'"
    using stitchSegments_chain_permutation[OF exChain_open m] by blast
  then have "sameContours [[exA, exB, exC]] [[exC, exB, exA]]" using ev ev' by simp
  then show ?thesis using exChain_open m ev ev' by simp
qed

text \<open>
  Claim C1 as stated fails in three ways. A closed ring is returned from the seed, so
  permuting its segments rotates the polyline; at a point where three segments meet
  the scan joins whichever comes first; and of two endpoints that differ by less than
  the tolerance the polyline keeps the one of the segment consumed first.
\<close>

theorem stitchSegments_order_dependent:
  "mset [Segment exB exC, Segment exC exA, Segment exA exB]
     = mset [Segment exA exB, Segment exB exC, Segment exC exA] \<and>
   stitchSegments [Segment exA exB, Segment exB exC, Segment exC exA] defaultTolerance
     = Some [[exA, exB, exC, exA]] \<and>
   stitchSegments [Segment exB exC, Segment exC exA, Segment exA exB] defaultTolerance
     = Some [[exB, exC, exA, exB]] \<and>
   \<not> sameContours [[exA, exB, exC, exA]] [[exB, exC, exA, exB]] \<and>
   mset [Segment exA exB, Segment exB exD, Segment exB exC]
     = mset [Segment exA exB, Segment exB exC, Segment exB exD] \<and>
   stitchSegments [Segment exA exB, Segment exB exC, Segment exB exD] defaultTolerance
     = Some [[exA, exB, exC], [exB, exD]] \<and>
   stitchSegments [Segment exA exB, Segment exB exD, Segment exB exC] defaultTolerance
     = Some [[exA, exB, exD], [exB, exC]] \<and>
   \<not> sameContours [[exA, exB, exC], [exB, exD]] [[exA, exB, exD], [exB, exC]] \<and>
   mset [Segment exB' exC, Segment exA exB] = mset [Segment exA exB, Segment exB' exC] \<and>
   stitchSegments [Segment exA exB, Segment exB' exC] defaultTolerance = Some [[exA, exB, exC]] \<and>
   stitchSegments [Segment exB' exC, Segment exA exB] defaultTolerance = Some [[exA, exB', exC]] \<and>
   \<not> sameContours [[exA, exB, exC]] [[exA, exB', exC]]"
proof -
  note ev = stitchSegments_def stitchBy_def seedStep_def extendLoop.simps scanPass_def
        scanStep_def samePoint_iff defaultTolerance_def distanceToSquared_def
        exA_def exB_def exC_def exD_def exB'_def
  have r1: "stitchSegments [Segment exA exB, Segment exB exC, Segment exC exA] defaultTolerance
     = Some [[exA, exB, exC, exA]]" by (simp add: ev)
  have r2: "stitchSegments [Segment exB exC, Segment exC exA, Segment exA exB] defaultTolerance
     = Some [[exB, exC, exA, exB]]" by (simp add: ev)
  have r3: "\<not> sameContours [[exA, exB, exC, exA]] [[exB, exC, exA, exB]]"
    by (simp add: sameContours_def samePolyline_def exA_def exB_def exC_def)
  have j1: "stitchSegments [Segment exA exB, Segment exB exC, Segment exB exD] defaultTolerance
     = Some [[exA, exB, exC], [exB, exD]]" by (simp add: ev)
  have j2: "stitchSegments [Segment exA exB, Segment exB exD, Segment exB exC] defaultTolerance
     = Some [[exA, exB, exD], [exB, exC]]" by (simp add: ev)
  have j3: "\<not> sameContours [[exA, exB, exC], [exB, exD]] [[exA, exB, exD], [exB, exC]]"
    by (simp add: sameContours_def samePolyline_def exA_def exB_def exC_def exD_def)
  have n1: "stitchSegments [Segment exA exB, Segment exB' exC] defaultTolerance = Some [[exA, exB, exC]]"
    by (simp add: ev)
  have n2: "stitchSegments [Segment exB' exC, Segment exA exB] defaultTolerance = Some [[exA, exB', exC]]"
    by (simp add: ev)
  have n3: "\<not> sameContours [[exA, exB, exC]] [[exA, exB', exC]]"
    by (simp add: sameContours_def samePolyline_def exA_def exB_def exC_def exB'_def)
  have m1: "mset [Segment exB exC, Segment exC exA, Segment exA exB]
     = mset [Segment exA exB, Segment exB exC, Segment exC exA]" by (simp add: ac_simps)
  have m2: "mset [Segment exA exB, Segment exB exD, Segment exB exC]
     = mset [Segment exA exB, Segment exB exC, Segment exB exD]" by (simp add: ac_simps)
  have m3: "mset [Segment exB' exC, Segment exA exB] = mset [Segment exA exB, Segment exB' exC]"
    by (simp add: ac_simps)
  show ?thesis using r1 r2 r3 j1 j2 j3 n1 n2 n3 m1 m2 m3 by (intro conjI)
qed

section \<open>Contours: crossings, triangles and missed meshes\<close>

lemma map_filter_snoc:
  "List.map_filter f (xs @ [v]) = List.map_filter f xs @ (case f v of None \<Rightarrow> [] | Some w \<Rightarrow> [w])"
  by (simp add: List.map_filter_def split: option.splits)

lemma contourStep_edgeCrossing:
  "contourStep secondPlane pts i acc =
     acc @ (case edgeCrossing secondPlane (pts ! i, pts ! (i + 1)) of None \<Rightarrow> [] | Some w \<Rightarrow> [w])"
  by (simp add: contourStep_def edgeCrossing_def Let_def split: option.splits)

lemma fold_contourStep:
  "n \<le> length pts - 1 \<Longrightarrow>
     fold (contourStep secondPlane pts) [0..<n] acc =
       acc @ List.map_filter (edgeCrossing secondPlane) (take n (zip pts (tl pts)))"
proof (induction n)
  case 0
  then show ?case by (simp add: List.map_filter_def)
next
  case (Suc n)
  have n: "n < length (zip pts (tl pts))" using Suc.prems by simp
  have nth: "zip pts (tl pts) ! n = (pts ! n, pts ! (n + 1))"
    using n by (simp add: nth_tl)
  have "take (Suc n) (zip pts (tl pts)) = take n (zip pts (tl pts)) @ [(pts ! n, pts ! (n + 1))]"
    using take_Suc_conv_app_nth[OF n] nth by simp
  then show ?case
    using Suc by (simp add: map_filter_snoc contourStep_edgeCrossing)
qed

lemma getContourPlaneIntersection_eq:
  "getContourPlaneIntersection (Some pts) secondPlane =
     Inr (List.map_filter (edgeCrossing secondPlane) (zip pts (tl pts)))"
  using fold_contourStep[of "length pts - 1" pts secondPlane "[]"]
  by (simp add: getContourPlaneIntersection_def)

lemma dot_delta:
  "dot (normal pl) (delta s e) = distanceToPoint pl e - distanceToPoint pl s"
  by (simp add: dot_def delta_def distanceToPoint_def algebra_simps)

lemma dot_commute: "dot u v = dot v u"
  by (simp add: dot_def mult.commute)

lemma distanceToPoint_addScaled:
  "distanceToPoint pl (addScaledVector s (delta s e) t) =
     distanceToPoint pl s + t * (distanceToPoint pl e - distanceToPoint pl s)"
  by (simp add: dot_def delta_def distanceToPoint_def addScaledVector_def algebra_simps)

lemma straddles_intersectLine:
  assumes "straddles pl s e"
  shows "\<exists>p. intersectLine pl s e = Some p \<and> distanceToPoint pl p = 0"
proof -
  let ?ds = "distanceToPoint pl s" and ?de = "distanceToPoint pl e"
  have st: "(?ds \<ge> 0 \<and> ?de \<le> 0) \<or> (?ds \<le> 0 \<and> ?de \<ge> 0)"
    using assms by (simp add: straddles_def Let_def)
  have num: "dot s (normal pl) + plane_constant pl = ?ds"
    by (simp add: distanceToPoint_def dot_commute)
  show ?thesis
  proof (cases "?de - ?ds = 0")
    case True
    then have "?ds = 0" using st by auto
    then show ?thesis using True
      by (simp add: intersectLine_def Let_def dot_delta)
  next
    case False
    let ?t = "- ?ds / (?de - ?ds)"
    have t0: "0 \<le> ?t" using st False by (auto simp: divide_simps)
    have t1: "?t \<le> 1" using st False by (auto simp: divide_simps)
    have "intersectLine pl s e = Some (addScaledVector s (delta s e) ?t)"
      using False t0 t1 by (simp add: intersectLine_def Let_def dot_delta num not_less)
    moreover have "distanceToPoint pl (addScaledVector s (delta s e) ?t) = 0"
      using False by (simp add: distanceToPoint_addScaled)
    ultimately show ?thesis by simp
  qed
qed

lemma edgeCrossing_iff:
  "(\<exists>p. edgeCrossing pl edge = Some p \<and> distanceToPoint pl p = 0) \<longleftrightarrow>
     distanceToPoint pl (fst edge) * distanceToPoint pl (snd edge) \<le> 0"
proof -
  have "straddles pl (fst edge) (snd edge) \<longleftrightarrow>
     distanceToPoint pl (fst edge) * distanceToPoint pl (snd edge) \<le> 0"
    by (auto simp: straddles_def Let_def mult_le_0_iff)
  then show ?thesis
    using straddles_intersectLine[of pl "fst edge" "snd edge"]
    by (auto simp: edgeCrossing_def)
qed

lemma edgeCrossing_Some_iff:
  "(\<exists>p. edgeCrossing pl edge = Some p) \<longleftrightarrow>
     distanceToPoint pl (fst edge) * distanceToPoint pl (snd edge) \<le> 0"
proof
  assume "\<exists>p. edgeCrossing pl edge = Some p"
  then have "straddles pl (fst edge) (snd edge)"
    by (auto simp: edgeCrossing_def split: if_splits)
  then show "distanceToPoint pl (fst edge) * distanceToPoint pl (snd edge) \<le> 0"
    by (auto simp: straddles_def Let_def mult_le_0_iff)
next
  assume "distanceToPoint pl (fst edge) * distanceToPoint pl (snd edge) \<le> 0"
  then show "\<exists>p. edgeCrossing pl edge = Some p"
    using edgeCrossing_iff[of pl edge] by blast
qed

lemma length_map_filter:
  "length (List.map_filter f xs) = length (filter (\<lambda>v. f v \<noteq> None) xs)"
  by (induction xs) (auto simp: List.map_filter_def)

lemma edgeCrossing_point:
  assumes "edgeCrossing pl edge = Some p"
  shows "0 \<le> crossingParameter pl edge" and "crossingParameter pl edge \<le> 1"
    and "p = addScaledVector (fst edge) (delta (fst edge) (snd edge)) (crossingParameter pl edge)"
    and "distanceToPoint pl p = 0"
proof -
  let ?s = "fst edge" and ?e = "snd edge"
  let ?ds = "distanceToPoint pl (fst edge)" and ?de = "distanceToPoint pl (snd edge)"
  have st: "(?ds \<ge> 0 \<and> ?de \<le> 0) \<or> (?ds \<le> 0 \<and> ?de \<ge> 0)"
    and il: "intersectLine pl ?s ?e = Some p"
    using assms by (simp_all add: edgeCrossing_def straddles_def Let_def split: if_splits)
  have num: "dot ?s (normal pl) + plane_constant pl = ?ds"
    by (simp add: distanceToPoint_def dot_commute)
  have z: "addScaledVector ?s (delta ?s ?e) 0 = ?s"
    by (simp add: addScaledVector_def)
  show "0 \<le> crossingParameter pl edge"
    using st by (auto simp: crossingParameter_def Let_def divide_simps)
  show "crossingParameter pl edge \<le> 1"
    using st by (auto simp: crossingParameter_def Let_def divide_simps)
  show eq: "p = addScaledVector ?s (delta ?s ?e) (crossingParameter pl edge)"
  proof (cases "?ds = ?de")
    case True
    then show ?thesis
      using il by (simp add: intersectLine_def Let_def dot_delta crossingParameter_def z
          split: if_splits)
  next
    case False
    have "- ?ds / (?de - ?ds) = ?ds / (?ds - ?de)"
      using minus_divide_divide[of ?ds "?ds - ?de"] by simp
    then show ?thesis
      using il False
      by (simp add: intersectLine_def Let_def dot_delta num crossingParameter_def
          split: if_splits)
  qed
  show "distanceToPoint pl p = 0"
    using straddles_intersectLine[of pl ?s ?e] assms il
    by (auto simp: edgeCrossing_def split: if_splits)
qed

lemma map_filter_set:
  "p \<in> set (List.map_filter f xs) \<longleftrightarrow> (\<exists>v \<in> set xs. f v = Some p)"
  by (induction xs) (auto simp: List.map_filter_def)

lemma zip_tl_nth:
  "v \<in> set (zip pts (tl pts)) \<Longrightarrow> \<exists>i. Suc i < length pts \<and> v = (pts ! i, pts ! Suc i)"
proof -
  assume "v \<in> set (zip pts (tl pts))"
  then obtain i where i: "i < length (zip pts (tl pts))" and v: "v = zip pts (tl pts) ! i"
    by (auto simp: in_set_conv_nth)
  have "Suc i < length pts" using i by simp
  moreover have "v = (pts ! i, pts ! Suc i)" using i v by (simp add: nth_tl)
  ultimately show ?thesis by blast
qed

text \<open>
  Claim C8. For every polyline and plane, \<^verbatim>\<open>getContourPlaneIntersection\<close> returns
  normally, and its result lists, in the order of the polyline, the crossing of each
  pair of consecutive points that has one; nothing is removed from the list. A pair
  yields a crossing exactly when the product of the signed distances of its two points
  is at most zero, that is, when the signs differ or a distance is zero. The crossing
  of a pair is the point of the segment between the two points at the parameter
  \<open>crossingParameter\<close>, which lies between \<open>0\<close> and \<open>1\<close>, and it lies on the plane: for a
  segment that is not parallel to the plane it is the one point where the segment
  meets the plane, and for a segment inside the plane it is the start. So the number
  of points returned is the number of such pairs, and every point returned lies on the
  plane and on the segment between two consecutive points of the polyline.
  The example after the theorem runs a polyline whose middle point lies on the plane,
  which is reported twice, a segment from \<open>(5, 0, 1)\<close> to \<open>(5, 0, -1)\<close>, which crosses
  the plane \<open>z = 0\<close> at \<open>(5, 0, 0)\<close>, a polyline on one side of the plane and the empty
  polyline, which yield no point.
\<close>

theorem getContourPlaneIntersection_crossings:
  "getContourPlaneIntersection (Some contourPoints) secondPlane =
     Inr (List.map_filter (edgeCrossing secondPlane) (zip contourPoints (tl contourPoints))) \<and>
   (\<forall>edge. (\<exists>p. edgeCrossing secondPlane edge = Some p \<and> distanceToPoint secondPlane p = 0) \<longleftrightarrow>
       distanceToPoint secondPlane (fst edge) * distanceToPoint secondPlane (snd edge) \<le> 0) \<and>
   (\<forall>edge p. edgeCrossing secondPlane edge = Some p \<longrightarrow>
       0 \<le> crossingParameter secondPlane edge \<and> crossingParameter secondPlane edge \<le> 1 \<and>
       p = addScaledVector (fst edge) (delta (fst edge) (snd edge))
             (crossingParameter secondPlane edge) \<and>
       distanceToPoint secondPlane p = 0) \<and>
   (\<exists>out. getContourPlaneIntersection (Some contourPoints) secondPlane = Inr out \<and>
      length out = length (filter
        (\<lambda>edge. distanceToPoint secondPlane (fst edge) * distanceToPoint secondPlane (snd edge) \<le> 0)
        (zip contourPoints (tl contourPoints))) \<and>
      (\<forall>p \<in> set out. \<exists>i t. Suc i < length contourPoints \<and> 0 \<le> t \<and> t \<le> 1 \<and>
         p = addScaledVector (contourPoints ! i)
               (delta (contourPoints ! i) (contourPoints ! Suc i)) t \<and>
         distanceToPoint secondPlane p = 0))"
proof (intro conjI allI impI)
  show "getContourPlaneIntersection (Some contourPoints) secondPlane =
     Inr (List.map_filter (edgeCrossing secondPlane) (zip contourPoints (tl contourPoints)))"
    by (rule getContourPlaneIntersection_eq)
next
  fix edge
  show "(\<exists>p. edgeCrossing secondPlane edge = Some p \<and> distanceToPoint secondPlane p = 0) \<longleftrightarrow>
       distanceToPoint secondPlane (fst edge) * distanceToPoint secondPlane (snd edge) \<le> 0"
    by (rule edgeCrossing_iff)
next
  fix edge p assume "edgeCrossing secondPlane edge = Some p"
  then show "0 \<le> crossingParameter secondPlane edge"
    by (rule edgeCrossing_point(1))
next
  fix edge p assume "edgeCrossing secondPlane edge = Some p"
  then show "crossingParameter secondPlane edge \<le> 1"
    by (rule edgeCrossing_point(2))
next
  fix edge p assume "edgeCrossing secondPlane edge = Some p"
  then show "p = addScaledVector (fst edge) (delta (fst edge) (snd edge))
             (crossingParameter secondPlane edge)"
    by (rule edgeCrossing_point(3))
next
  fix edge p assume "edgeCrossing secondPlane edge = Some p"
  then show "distanceToPoint secondPlane p = 0"
    by (rule edgeCrossing_point(4))
next
  let ?out = "List.map_filter (edgeCrossing secondPlane) (zip contourPoints (tl contourPoints))"
  have len: "length ?out = length (filter
        (\<lambda>edge. distanceToPoint secondPlane (fst edge) * distanceToPoint secondPlane (snd edge) \<le> 0)
        (zip contourPoints (tl contourPoints)))"
    by (simp add: length_map_filter edgeCrossing_Some_iff)
  have pts: "\<exists>i t. Suc i < length contourPoints \<and> 0 \<le> t \<and> t \<le> 1 \<and>
         p = addScaledVector (contourPoints ! i)
               (delta (contourPoints ! i) (contourPoints ! Suc i)) t \<and>
         distanceToPoint secondPlane p = 0" if pin: "p \<in> set ?out" for p
  proof -
    obtain v where v: "v \<in> set (zip contourPoints (tl contourPoints))"
      and c: "edgeCrossing secondPlane v = Some p"
      using pin unfolding map_filter_set by blast
    obtain i where i: "Suc i < length contourPoints"
      and vi: "v = (contourPoints ! i, contourPoints ! Suc i)"
      using zip_tl_nth[OF v] by blast
    note f = edgeCrossing_point[OF c]
    have "p = addScaledVector (contourPoints ! i)
               (delta (contourPoints ! i) (contourPoints ! Suc i)) (crossingParameter secondPlane v)"
      using f(3) by (simp add: vi)
    then show ?thesis using i f(1,2,4) by blast
  qed
  show "\<exists>out. getContourPlaneIntersection (Some contourPoints) secondPlane = Inr out \<and>
      length out = length (filter
        (\<lambda>edge. distanceToPoint secondPlane (fst edge) * distanceToPoint secondPlane (snd edge) \<le> 0)
        (zip contourPoints (tl contourPoints))) \<and>
      (\<forall>p \<in> set out. \<exists>i t. Suc i < length contourPoints \<and> 0 \<le> t \<and> t \<le> 1 \<and>
         p = addScaledVector (contourPoints ! i)
               (delta (contourPoints ! i) (contourPoints ! Suc i)) t \<and>
         distanceToPoint secondPlane p = 0)"
    using len pts getContourPlaneIntersection_eq[of contourPoints secondPlane] by blast
qed

theorem getContourPlaneIntersection_crossings_witness:
  "getContourPlaneIntersection (Some [Vector3 0 0 1, Vector3 0 0 0, Vector3 1 0 (-1)])
      (Plane (Vector3 0 0 1) 0) = Inr [Vector3 0 0 0, Vector3 0 0 0] \<and>
   getContourPlaneIntersection (Some [Vector3 5 0 1, Vector3 5 0 (-1)])
      (Plane (Vector3 0 0 1) 0) = Inr [Vector3 5 0 0] \<and>
   edgeCrossing (Plane (Vector3 0 0 1) 0) (Vector3 5 0 1, Vector3 5 0 (-1)) = Some (Vector3 5 0 0) \<and>
   crossingParameter (Plane (Vector3 0 0 1) 0) (Vector3 5 0 1, Vector3 5 0 (-1)) = 1 / 2 \<and>
   Vector3 5 0 0 = addScaledVector (Vector3 5 0 1) (delta (Vector3 5 0 1) (Vector3 5 0 (-1))) (1 / 2) \<and>
   distanceToPoint (Plane (Vector3 0 0 1) 0) (Vector3 5 0 0) = 0 \<and>
   getContourPlaneIntersection (Some [Vector3 0 0 1, Vector3 0 0 2]) (Plane (Vector3 0 0 1) 0) = Inr [] \<and>
   getContourPlaneIntersection (Some []) (Plane (Vector3 0 0 1) 0) = Inr []"
proof -
  let ?pl = "Plane (Vector3 0 0 1) 0"
  have e1: "edgeCrossing ?pl (Vector3 0 0 1, Vector3 0 0 0) = Some (Vector3 0 0 0)"
    by (simp add: edgeCrossing_def straddles_def intersectLine_def distanceToPoint_def dot_def
        delta_def addScaledVector_def Let_def)
  have e2: "edgeCrossing ?pl (Vector3 0 0 0, Vector3 1 0 (-1)) = Some (Vector3 0 0 0)"
    by (simp add: edgeCrossing_def straddles_def intersectLine_def distanceToPoint_def dot_def
        delta_def addScaledVector_def Let_def)
  have e3: "edgeCrossing ?pl (Vector3 0 0 1, Vector3 0 0 2) = None"
    by (simp add: edgeCrossing_def straddles_def distanceToPoint_def dot_def Let_def)
  have e4: "edgeCrossing ?pl (Vector3 5 0 1, Vector3 5 0 (-1)) = Some (Vector3 5 0 0)"
    by (simp add: edgeCrossing_def straddles_def intersectLine_def distanceToPoint_def dot_def
        delta_def addScaledVector_def Let_def)
  have t: "crossingParameter ?pl (Vector3 5 0 1, Vector3 5 0 (-1)) = 1 / 2"
    by (simp add: crossingParameter_def distanceToPoint_def dot_def Let_def)
  note at = getContourPlaneIntersection_crossings[of "[Vector3 5 0 1, Vector3 5 0 (-1)]" ?pl,
      THEN conjunct2, THEN conjunct2, THEN conjunct1, rule_format, OF e4]
  have on: "Vector3 5 0 0 =
      addScaledVector (Vector3 5 0 1) (delta (Vector3 5 0 1) (Vector3 5 0 (-1))) (1 / 2)"
    using at[THEN conjunct2, THEN conjunct2, THEN conjunct1] unfolding t by simp
  have pl: "distanceToPoint ?pl (Vector3 5 0 0) = 0"
    using at[THEN conjunct2, THEN conjunct2, THEN conjunct2] .
  have c1: "getContourPlaneIntersection (Some [Vector3 0 0 1, Vector3 0 0 0, Vector3 1 0 (-1)]) ?pl
      = Inr [Vector3 0 0 0, Vector3 0 0 0]"
    using getContourPlaneIntersection_crossings[of "[Vector3 0 0 1, Vector3 0 0 0, Vector3 1 0 (-1)]"
        ?pl, THEN conjunct1]
    by (simp add: List.map_filter_def e1 e2)
  have c2: "getContourPlaneIntersection (Some [Vector3 5 0 1, Vector3 5 0 (-1)]) ?pl
      = Inr [Vector3 5 0 0]"
    using getContourPlaneIntersection_crossings[of "[Vector3 5 0 1, Vector3 5 0 (-1)]" ?pl,
        THEN conjunct1]
    by (simp add: List.map_filter_def e4)
  have c3: "getContourPlaneIntersection (Some [Vector3 0 0 1, Vector3 0 0 2]) ?pl = Inr []"
    using getContourPlaneIntersection_crossings[of "[Vector3 0 0 1, Vector3 0 0 2]" ?pl,
        THEN conjunct1]
    by (simp add: List.map_filter_def e3)
  have c4: "getContourPlaneIntersection (Some []) ?pl = Inr []"
    using getContourPlaneIntersection_crossings[of "[]" ?pl, THEN conjunct1]
    by (simp add: List.map_filter_def)
  show ?thesis
    by (intro conjI c1 c2 e4 t on pl c3 c4)
qed

lemma distanceTo_less_iff:
  "0 < t \<Longrightarrow> distanceTo u v < t \<longleftrightarrow> distanceToSquared u v < t * t"
  using samePoint_iff[of t u v] by (simp add: samePoint_def)

lemma distanceTo_dedup_iff:
  "distanceTo u v < dedupTolerance \<longleftrightarrow> distanceToSquared u v < dedupTolerance * dedupTolerance"
  by (rule distanceTo_less_iff) (simp add: dedupTolerance_def)

lemma collectPoints_length: "length (collectPoints localPlane tri) \<le> 3"
  by (simp add: collectPoints_def triangleEdges_def edgeStep_def split: option.splits)

lemma deduplicate_three:
  assumes "length pts = 3"
  shows "deduplicate pts =
     (if distanceTo (pts ! 0) (pts ! 1) < dedupTolerance then [pts ! 0, pts ! 2]
      else if distanceTo (pts ! 1) (pts ! 2) < dedupTolerance then [pts ! 0, pts ! 1]
      else [pts ! 1, pts ! 2])"
proof -
  obtain p0 p1 p2 where pts: "pts = [p0, p1, p2]"
    using assms by (auto simp: length_Suc_conv numeral_3_eq_3)
  show ?thesis by (simp add: pts deduplicate_def splice1_def)
qed

lemma deduplicate_other:
  "length pts \<noteq> 3 \<Longrightarrow> deduplicate pts = pts"
  by (simp add: deduplicate_def)

lemma deduplicate_three_length: "length pts = 3 \<Longrightarrow> length (deduplicate pts) = 2"
  by (simp add: deduplicate_three)

text \<open>
  Claim C2, as amended. At most three points are collected for a triangle. When three
  are collected, one is removed and two are left: the second when the first two are
  closer than \<^verbatim>\<open>1e-5\<close>, else the third when the last two are closer than \<^verbatim>\<open>1e-5\<close>,
  else the first, whatever its distances to the other two. Otherwise nothing is removed.
  A segment is made exactly when two or three points were collected, and always from
  two points.
\<close>

theorem intersectsTriangle_two_points:
  "length (collectPoints localPlane tri) \<le> 3 \<and>
   (length (collectPoints localPlane tri) = 3 \<longrightarrow>
      length (deduplicate (collectPoints localPlane tri)) = 2 \<and>
      deduplicate (collectPoints localPlane tri) =
        (let pts = collectPoints localPlane tri
         in if distanceTo (pts ! 0) (pts ! 1) < dedupTolerance then [pts ! 0, pts ! 2]
            else if distanceTo (pts ! 1) (pts ! 2) < dedupTolerance then [pts ! 0, pts ! 1]
            else [pts ! 1, pts ! 2])) \<and>
   (length (collectPoints localPlane tri) \<noteq> 3 \<longrightarrow>
      deduplicate (collectPoints localPlane tri) = collectPoints localPlane tri) \<and>
   intersectsTriangle toW localPlane tri =
     (let pts = deduplicate (collectPoints localPlane tri)
      in if length (collectPoints localPlane tri) = 2 \<or> length (collectPoints localPlane tri) = 3
         then [Segment (toW (pts ! 0)) (toW (pts ! 1))] else []) \<and>
   (intersectsTriangle toW localPlane tri \<noteq> [] \<longrightarrow>
      length (deduplicate (collectPoints localPlane tri)) = 2)"
proof (intro conjI impI)
  show "length (collectPoints localPlane tri) \<le> 3" by (rule collectPoints_length)
next
  assume "length (collectPoints localPlane tri) = 3"
  then show "length (deduplicate (collectPoints localPlane tri)) = 2"
    by (rule deduplicate_three_length)
next
  assume "length (collectPoints localPlane tri) = 3"
  then show "deduplicate (collectPoints localPlane tri) =
        (let pts = collectPoints localPlane tri
         in if distanceTo (pts ! 0) (pts ! 1) < dedupTolerance then [pts ! 0, pts ! 2]
            else if distanceTo (pts ! 1) (pts ! 2) < dedupTolerance then [pts ! 0, pts ! 1]
            else [pts ! 1, pts ! 2])"
    by (simp add: deduplicate_three Let_def)
next
  assume "length (collectPoints localPlane tri) \<noteq> 3"
  then show "deduplicate (collectPoints localPlane tri) = collectPoints localPlane tri"
    by (rule deduplicate_other)
next
  show "intersectsTriangle toW localPlane tri =
     (let pts = deduplicate (collectPoints localPlane tri)
      in if length (collectPoints localPlane tri) = 2 \<or> length (collectPoints localPlane tri) = 3
         then [Segment (toW (pts ! 0)) (toW (pts ! 1))] else [])"
  proof (cases "length (collectPoints localPlane tri) = 3")
    case True
    then show ?thesis
      by (simp add: intersectsTriangle_def Let_def deduplicate_three_length)
  next
    case False
    then show ?thesis
      by (simp add: intersectsTriangle_def Let_def deduplicate_other)
  qed
next
  assume "intersectsTriangle toW localPlane tri \<noteq> []"
  then show "length (deduplicate (collectPoints localPlane tri)) = 2"
    by (simp add: intersectsTriangle_def Let_def split: if_splits)
qed

lemma collectPoints_vertex:
  "collectPoints (Plane (Vector3 0 0 1) 0)
      (Triangle (Vector3 0 0 0) (Vector3 1 0 1) (Vector3 1 0 (- 1)))
     = [Vector3 0 0 0, Vector3 1 0 0, Vector3 0 0 0]"
  by (simp add: collectPoints_def triangleEdges_def edgeStep_def intersectLine_def delta_def
        dot_def distanceToPoint_def addScaledVector_def Let_def)

lemma collectPoints_coplanar:
  "collectPoints (Plane (Vector3 0 0 1) 0)
      (Triangle (Vector3 0 0 0) (Vector3 1 0 0) (Vector3 0 1 0))
     = [Vector3 0 0 0, Vector3 1 0 0, Vector3 0 1 0]"
  by (simp add: collectPoints_def triangleEdges_def edgeStep_def intersectLine_def delta_def
        dot_def distanceToPoint_def addScaledVector_def Let_def)

theorem intersectsTriangle_two_points_witness:
  "length (collectPoints (Plane (Vector3 0 0 1) 0)
      (Triangle (Vector3 0 0 0) (Vector3 1 0 1) (Vector3 1 0 (- 1)))) = 3 \<and>
   deduplicate (collectPoints (Plane (Vector3 0 0 1) 0)
      (Triangle (Vector3 0 0 0) (Vector3 1 0 1) (Vector3 1 0 (- 1))))
     = [Vector3 1 0 0, Vector3 0 0 0] \<and>
   intersectsTriangle (\<lambda>v. v) (Plane (Vector3 0 0 1) 0)
      (Triangle (Vector3 0 0 0) (Vector3 1 0 1) (Vector3 1 0 (- 1)))
     = [Segment (Vector3 1 0 0) (Vector3 0 0 0)]"
proof -
  let ?pl = "Plane (Vector3 0 0 1) 0"
  let ?tri = "Triangle (Vector3 0 0 0) (Vector3 1 0 1) (Vector3 1 0 (- 1))"
  have three: "length (collectPoints ?pl ?tri) = 3" by (simp add: collectPoints_vertex)
  note inst = intersectsTriangle_two_points[of ?pl ?tri "\<lambda>v. v"]
  have d: "deduplicate (collectPoints ?pl ?tri) = [Vector3 1 0 0, Vector3 0 0 0]"
    using inst[THEN conjunct2, THEN conjunct1, THEN mp, OF three, THEN conjunct2]
    unfolding collectPoints_vertex Let_def distanceTo_dedup_iff
    by (simp add: dedupTolerance_def distanceToSquared_def)
  have "intersectsTriangle (\<lambda>v. v) ?pl ?tri = [Segment (Vector3 1 0 0) (Vector3 0 0 0)]"
    using inst[THEN conjunct2, THEN conjunct2, THEN conjunct2, THEN conjunct1] three
    by (simp add: d Let_def)
  then show ?thesis using three d by simp
qed

text \<open>
  Claim C2 as stated fails for a triangle that lies in the plane: every edge reports
  its start, the three corners are collected, and the first corner is removed although
  no two of the corners are within the tolerance of each other.
\<close>

theorem deduplicate_discards_far_point:
  "collectPoints (Plane (Vector3 0 0 1) 0)
      (Triangle (Vector3 0 0 0) (Vector3 1 0 0) (Vector3 0 1 0))
     = [Vector3 0 0 0, Vector3 1 0 0, Vector3 0 1 0] \<and>
   deduplicate [Vector3 0 0 0, Vector3 1 0 0, Vector3 0 1 0] = [Vector3 1 0 0, Vector3 0 1 0] \<and>
   \<not> distanceTo (Vector3 0 0 0) (Vector3 1 0 0) < dedupTolerance \<and>
   \<not> distanceTo (Vector3 0 0 0) (Vector3 0 1 0) < dedupTolerance \<and>
   \<not> distanceTo (Vector3 1 0 0) (Vector3 0 1 0) < dedupTolerance"
  unfolding collectPoints_coplanar deduplicate_def distanceTo_dedup_iff
  by (simp add: splice1_def dedupTolerance_def distanceToSquared_def)

lemma stitchSegments_Nil: "stitchSegments [] tolerance = Some []"
  by (simp add: stitchSegments_def stitchBy_def)

lemma stitchSegments_single: "stitchSegments [s] tolerance = Some [[seg_start s, seg_end s]]"
  by (simp add: stitchSegments_def stitchBy_def seedStep_def extendLoop.simps scanPass_def
      scanStep_def)

lemma contourMiss:
  "contourSegments meshA (Plane (Vector3 0 0 1) (- 5)) = []"
proof -
  have "collectPoints (Plane (Vector3 0 0 1) (- 5))
          (Triangle (Vector3 0 0 (- 1)) (Vector3 2 0 1) (Vector3 0 2 1)) = []"
    by (simp add: collectPoints_def triangleEdges_def edgeStep_def intersectLine_def delta_def
        dot_def distanceToPoint_def addScaledVector_def Let_def)
  then show ?thesis
    by (simp add: contourSegments_def meshA_def intersectsTriangle_def deduplicate_def Let_def)
qed

lemma contourA:
  "getIntersectionContour meshA (Plane (Vector3 0 0 1) 0) = Inr (Some [Vector3 1 0 0, Vector3 0 1 0])"
proof -
  have "collectPoints (Plane (Vector3 0 0 1) 0)
          (Triangle (Vector3 0 0 (- 1)) (Vector3 2 0 1) (Vector3 0 2 1)) = [Vector3 1 0 0, Vector3 0 1 0]"
    by (simp add: collectPoints_def triangleEdges_def edgeStep_def intersectLine_def delta_def
        dot_def distanceToPoint_def addScaledVector_def Let_def)
  then have "contourSegments meshA (Plane (Vector3 0 0 1) 0) = [Segment (Vector3 1 0 0) (Vector3 0 1 0)]"
    by (simp add: contourSegments_def meshA_def intersectsBox_def intersectsTriangle_def
        deduplicate_def Let_def)
  then show ?thesis
    by (simp add: getIntersectionContour_def stitchSegments_single)
qed

lemma contourB:
  "getIntersectionContour meshB (Plane (Vector3 1 0 0) (- 10)) = Inr (Some [Vector3 10 0 5, Vector3 10 1 6])"
proof -
  have "collectPoints (Plane (Vector3 1 0 0) (- 10))
          (Triangle (Vector3 9 0 4) (Vector3 11 0 6) (Vector3 11 2 8)) = [Vector3 10 0 5, Vector3 10 1 6]"
    by (simp add: collectPoints_def triangleEdges_def edgeStep_def intersectLine_def delta_def
        dot_def distanceToPoint_def addScaledVector_def Let_def)
  then have "contourSegments meshB (Plane (Vector3 1 0 0) (- 10)) = [Segment (Vector3 10 0 5) (Vector3 10 1 6)]"
    by (simp add: contourSegments_def meshB_def intersectsBox_def intersectsTriangle_def
        deduplicate_def Let_def)
  then show ?thesis
    by (simp add: getIntersectionContour_def stitchSegments_single)
qed

lemma crossA: "getContourPlaneIntersection (Some [Vector3 1 0 0, Vector3 0 1 0]) (Plane (Vector3 1 0 0) (- 10)) = Inr []"
  by (simp add: getContourPlaneIntersection_def contourStep_def straddles_def distanceToPoint_def
      dot_def Let_def)

lemma crossB: "getContourPlaneIntersection (Some [Vector3 10 0 5, Vector3 10 1 6]) (Plane (Vector3 0 0 1) 0) = Inr []"
  by (simp add: getContourPlaneIntersection_def contourStep_def straddles_def distanceToPoint_def
      dot_def Let_def)

section \<open>Angles, the rotation callback and the alignment effect\<close>

lemma arctan_m1: "arctan (- 1) = - (pi / 4)"
  by (simp add: arctan_minus arctan_one)

text \<open>
  Claim C7. \<^verbatim>\<open>angleToEqualizeZ(p1, p2)\<close> is \<open>atan2 (p2.z - p1.z) (p1.y - p2.y)\<close>, and for
  \<open>p1 = (0, 0, 0)\<close> and \<open>p2 = (0, 1, 1)\<close> it is \<open>atan2 1 (-1)\<close>, which is \<open>3\<pi>/4\<close>.
\<close>

theorem angleToEqualizeZ_formula:
  "angleToEqualizeZ (Some p1) (Some p2) = Inr (atan2 (z p2 - z p1) (y p1 - y p2)) \<and>
   angleToEqualizeZ (Some (Vector3 0 0 0)) (Some (Vector3 0 1 1)) = Inr (3 * pi / 4) \<and>
   atan2 1 (- 1) = 3 * pi / 4"
  by (simp add: angleToEqualizeZ_def atan2_def arctan_m1)

text \<open>
  Claim C3, as amended. A call of \<^verbatim>\<open>animateRotation\<close> with a callback starts the tween
  and runs the callback once, at the time of the call: the callback receives the
  state in which the clock has not moved, the tween has just started and finishes
  one second later, and the trace has gained the start of the tween followed by the
  call of the callback.
\<close>

theorem animateRotation_callback_once:
  "\<exists>w1 tw. animateRotation object angle axis (Some cb) w = cb w1 \<and>
      clock w1 = clock w \<and>
      trace w1 = trace w @ [TweenStarted object (clock w) 1, CallbackInvoked (clock w)] \<and>
      tweens w1 = tweens w @ [tw] \<and> tw_target tw = object \<and>
      tw_start tw = clock w \<and> tw_duration tw = 1 \<and> tw_finish tw = clock w + 1000"
proof -
  define obj where "obj = \<lparr>tw_target = object,
                 tw_x = (if axis = ''x'' then Some angle else None),
                 tw_y = (if axis = ''y'' then Some angle else None),
                 tw_z = (if axis = ''z'' then Some angle else None),
                 tw_duration = 1, tw_ease = ''power2.inOut'', tw_start = 0\<rparr>"
  define w1 where "w1 = (gsapTo obj w)\<lparr>trace := trace (gsapTo obj w) @ [CallbackInvoked (clock (gsapTo obj w))]\<rparr>"
  have run: "animateRotation object angle axis (Some cb) w = cb w1"
    by (simp add: animateRotation_def Let_def obj_def w1_def)
  have "clock w1 = clock w"
    and "trace w1 = trace w @ [TweenStarted object (clock w) 1, CallbackInvoked (clock w)]"
    and "tweens w1 = tweens w @ [obj\<lparr>tw_start := clock w\<rparr>]"
    by (simp_all add: w1_def gsapTo_def obj_def)
  moreover have "tw_target (obj\<lparr>tw_start := clock w\<rparr>) = object"
    and "tw_start (obj\<lparr>tw_start := clock w\<rparr>) = clock w"
    and "tw_duration (obj\<lparr>tw_start := clock w\<rparr>) = 1"
    and "tw_finish (obj\<lparr>tw_start := clock w\<rparr>) = clock w + 1000"
    by (simp_all add: obj_def tw_finish_def)
  ultimately show ?thesis using run by blast
qed

text \<open>
  Claim C3 as stated fails: called at time \<open>0\<close>, \<^verbatim>\<open>animateRotation\<close> invokes its
  callback at time \<open>0\<close>, while the tween it has started finishes at \<open>1000\<close> ms.
\<close>

theorem animateRotation_callback_before_finish:
  "animateRotation GlbScene 1 ''x'' (Some Inr) world0 = Inr world0a \<and>
   trace world0a = [TweenStarted GlbScene 0 1, CallbackInvoked 0] \<and>
   map tw_finish (tweens world0a) = [1000] \<and>
   clock world0a = 0 \<and> (0 :: real) < 1000"
  by (simp add: animateRotation_def gsapTo_def tw_finish_def Let_def world0_def world0a_def)

lemma applyAxisAngle_x:
  "applyAxisAngle (Vector3 1 0 0) a v =
     Vector3 (x v) (y v * cos a - z v * sin a) (y v * sin a + z v * cos a)"
proof -
  have c: "cos a = 1 - 2 * sin (a / 2) * sin (a / 2)"
    using cos_double_sin[of "a / 2"] by (simp add: power2_eq_square)
  have s: "sin a = 2 * sin (a / 2) * cos (a / 2)"
    using sin_double[of "a / 2"] by simp
  show ?thesis
    unfolding applyAxisAngle_def setFromAxisAngle_def applyQuaternion_def Let_def
    by (simp add: c s algebra_simps)
qed

text \<open>
  Claim C4, as amended. When two distinct point objects are stored and the alignment
  is requested, the effect rotates both objects in place about the \<open>x\<close> axis by the
  first angle and registers the timer; when the timer fires, the angle of the second
  rotation is \<open>atan2 (p1.x - p2.x) (p1.y - p2.y)\<close> of the objects as they are then, that
  is, of the rotated points.
\<close>

theorem phase2_angle_from_rotated_points:
  assumes "points w = Some pts" and "aligned w = Some True" and "timers w = []"
    and "2 \<le> length pts" and "pts ! 0 \<noteq> pts ! 1"
  shows "\<exists>w1 w2 twX twZ.
     alignEffect w = Inr w1 \<and>
     heap w1 (pts ! 0) = applyAxisAngle (Vector3 1 0 0)
        (atan2 (z (heap w (pts ! 1)) - z (heap w (pts ! 0))) (y (heap w (pts ! 0)) - y (heap w (pts ! 1))))
        (heap w (pts ! 0)) \<and>
     heap w1 (pts ! 1) = applyAxisAngle (Vector3 1 0 0)
        (atan2 (z (heap w (pts ! 1)) - z (heap w (pts ! 0))) (y (heap w (pts ! 0)) - y (heap w (pts ! 1))))
        (heap w (pts ! 1)) \<and>
     timers w1 = [(clock w + 1000, Phase2 pts)] \<and>
     fireTimer w1 = Inr w2 \<and>
     tweens w2 = tweens w @ [twX, twZ] \<and>
     tw_target twZ = Group \<and> tw_start twZ = clock w + 1000 \<and>
     tw_z twZ = Some (atan2 (x (heap w1 (pts ! 0)) - x (heap w1 (pts ! 1)))
                            (y (heap w1 (pts ! 0)) - y (heap w1 (pts ! 1))))"
proof -
  let ?p1 = "heap w (pts ! 0)" and ?p2 = "heap w (pts ! 1)"
  let ?angleX = "atan2 (z ?p2 - z ?p1) (y ?p1 - y ?p2)"
  have n0: "nth_opt pts 0 = Some (pts ! 0)" and n1: "nth_opt pts 1 = Some (pts ! 1)"
    using assms(4) by (auto simp: nth_opt_def)
  have n1': "nth_opt pts (Suc 0) = Some (pts ! Suc 0)" using n1 by simp
  have ang: "angleToEqualizeZ (deref w (nth_opt pts 0)) (deref w (nth_opt pts 1)) = Inr ?angleX"
    by (simp add: n0 n1' deref_def angleToEqualizeZ_def)
  define obj where "obj = \<lparr>tw_target = GlbScene, tw_x = Some ?angleX, tw_y = None, tw_z = None,
      tw_duration = 1, tw_ease = ''power2.inOut'', tw_start = clock w\<rparr>"
  define wa where "wa = w\<lparr>tweens := tweens w @ [obj],
      trace := trace w @ [TweenStarted GlbScene (clock w) 1, CallbackInvoked (clock w)]\<rparr>"
  have eff: "alignEffect w = phase1Callback pts ?angleX wa"
    using assms(1,2) ang
    by (simp add: alignEffect_def animateRotation_def gsapTo_def Let_def wa_def obj_def)
  obtain w1 where cb: "phase1Callback pts ?angleX wa = Inr w1"
    and h0: "heap w1 (pts ! 0) = applyAxisAngle (Vector3 1 0 0) ?angleX ?p1"
    and h1: "heap w1 (pts ! 1) = applyAxisAngle (Vector3 1 0 0) ?angleX ?p2"
    and t1: "timers w1 = [(clock w + 1000, Phase2 pts)]"
    and c1: "clock w1 = clock w"
    and tw1: "tweens w1 = tweens w @ [obj]"
    using assms(3,5)
    by (simp add: phase1Callback_def rotatePointAt_def n0 n1' Let_def wa_def)
  have w1: "alignEffect w = Inr w1" using eff cb by simp
  let ?angleZ = "atan2 (x (heap w1 (pts ! 0)) - x (heap w1 (pts ! 1)))
                   (y (heap w1 (pts ! 0)) - y (heap w1 (pts ! 1)))"
  define wb where "wb = w1\<lparr>clock := max (clock w1) (clock w + 1000), timers := []\<rparr>"
  define twZ where "twZ = \<lparr>tw_target = Group, tw_x = None, tw_y = None, tw_z = Some ?angleZ,
      tw_duration = 1, tw_ease = ''power2.inOut'', tw_start = clock w + 1000\<rparr>"
  define w2 where "w2 = wb\<lparr>tweens := tweens wb @ [twZ],
      trace := trace wb @ [TweenStarted Group (clock wb) 1]\<rparr>"
  have cwb: "clock wb = clock w + 1000" by (simp add: wb_def c1)
  have ang2: "angleZToEqualizeX (deref wb (nth_opt pts 0)) (deref wb (nth_opt pts 1)) = Inr ?angleZ"
    by (simp add: n0 n1' deref_def angleZToEqualizeX_def wb_def)
  have "fireTimer w1 = runTask (Phase2 pts) wb"
    by (simp add: fireTimer_def t1 wb_def)
  also have "\<dots> = animateRotation Group ?angleZ ''z'' None wb"
    using ang2 by simp
  also have "\<dots> = Inr w2"
    by (simp add: animateRotation_def gsapTo_def Let_def w2_def twZ_def cwb)
  finally have w2: "fireTimer w1 = Inr w2" .
  have tws: "tweens w2 = tweens w @ [obj, twZ]" by (simp add: w2_def wb_def tw1)
  have z: "tw_target twZ = Group" "tw_start twZ = clock w + 1000" "tw_z twZ = Some ?angleZ"
    by (simp_all add: twZ_def)
  show ?thesis using w1 h0 h1 t1 w2 tws z by blast
qed

lemma alignEffect_worldEx: "alignEffect worldEx = Inr worldEx1"
  by (simp add: alignEffect_def worldEx_def worldEx1_def deref_def nth_opt_def
      angleToEqualizeZ_def atan2_def animateRotation_def gsapTo_def phase1Callback_def
      rotatePointAt_def applyAxisAngle_x Let_def fun_eq_iff)

lemma fireTimer_worldEx1_eq: "fireTimer worldEx1 = Inr worldEx2"
  by (simp add: fireTimer_def worldEx1_def worldEx2_def deref_def nth_opt_def
        angleZToEqualizeX_def atan2_def animateRotation_def gsapTo_def Let_def arctan_m1)

text \<open>
  Claim C4 as stated fails: for the points \<open>(0, 0, 0)\<close> and \<open>(1, 1, 0)\<close> the first angle
  is \<open>\<pi>\<close>, the second point becomes \<open>(1, -1, 0)\<close>, and the second rotation gets the
  angle \<open>-\<pi>/4\<close>, while the original coordinates give \<open>-3\<pi>/4\<close>.
\<close>

theorem phase2_angle_not_from_original_points:
  "alignEffect worldEx = Inr worldEx1 \<and>
   heap worldEx 0 = Vector3 0 0 0 \<and> heap worldEx 1 = Vector3 1 1 0 \<and>
   heap worldEx1 0 = Vector3 0 0 0 \<and> heap worldEx1 1 = Vector3 1 (- 1) 0 \<and>
   fireTimer worldEx1 = Inr worldEx2 \<and>
   map tw_z (tweens worldEx2) = [None, Some (- (pi / 4))] \<and>
   angleZToEqualizeX (Some (Vector3 0 0 0)) (Some (Vector3 1 1 0)) = Inr (- (3 * pi / 4)) \<and>
   - (pi / 4) \<noteq> - (3 * pi / 4)"
proof -
  have "angleZToEqualizeX (Some (Vector3 0 0 0)) (Some (Vector3 1 1 0)) = Inr (- (3 * pi / 4))"
    by (simp add: angleZToEqualizeX_def atan2_def arctan_one)
  moreover have "map tw_z (tweens worldEx2) = [None, Some (- (pi / 4))]"
    by (simp add: worldEx2_def)
  moreover have "heap worldEx 0 = Vector3 0 0 0" "heap worldEx 1 = Vector3 1 1 0"
    "heap worldEx1 0 = Vector3 0 0 0" "heap worldEx1 1 = Vector3 1 (- 1) 0"
    by (simp_all add: worldEx_def worldEx1_def)
  ultimately show ?thesis using alignEffect_worldEx fireTimer_worldEx1_eq by simp
qed

theorem phase2_angle_from_rotated_points_witness:
  "points worldEx = Some [0, 1] \<and> aligned worldEx = Some True \<and> timers worldEx = [] \<and>
   2 \<le> length [0, 1 :: nat] \<and> [0, 1 :: nat] ! 0 \<noteq> [0, 1] ! 1 \<and>
   (\<exists>w1 w2 twX twZ. alignEffect worldEx = Inr w1 \<and> fireTimer w1 = Inr w2 \<and>
      heap w1 0 = Vector3 0 0 0 \<and> heap w1 1 = Vector3 1 (- 1) 0 \<and>
      tweens w2 = [twX, twZ] \<and> tw_z twZ = Some (- (pi / 4)))"
proof -
  have h: "points worldEx = Some [0, 1]" "aligned worldEx = Some True" "timers worldEx = []"
    "2 \<le> length [0, 1 :: nat]" "[0, 1 :: nat] ! 0 \<noteq> [0, 1] ! 1"
    by (simp_all add: worldEx_def)
  obtain w1 w2 twX twZ where r: "alignEffect worldEx = Inr w1" "fireTimer w1 = Inr w2"
    "tweens w2 = tweens worldEx @ [twX, twZ]"
    "tw_z twZ = Some (atan2 (x (heap w1 ([0, 1] ! 0)) - x (heap w1 ([0, 1] ! 1)))
                            (y (heap w1 ([0, 1] ! 0)) - y (heap w1 ([0, 1] ! 1))))"
    using phase2_angle_from_rotated_points[OF h] by blast
  have w1: "w1 = worldEx1"
    using r(1) alignEffect_worldEx by simp
  have h0: "heap w1 0 = Vector3 0 0 0" and h1: "heap w1 1 = Vector3 1 (- 1) 0"
    and h1': "heap w1 (Suc 0) = Vector3 1 (- 1) 0"
    by (simp_all add: w1 worldEx1_def)
  have "tw_z twZ = Some (- (pi / 4))"
    using r(4) by (simp add: h0 h1' atan2_def arctan_m1)
  moreover have "tweens w2 = [twX, twZ]" using r(3) by (simp add: worldEx_def)
  ultimately show ?thesis using h r(1,2) h0 h1 by blast
qed

lemma handleApply_both_fail:
  "handleApply exScene (Some selA) (Some selB) world0 =
     Inr (world0\<lparr>aligned := Some True, points := Some []\<rparr>)"
  by (simp add: handleApply_def exScene_def selA_def selB_def setFromNormalAndCoplanarPoint_def
      dot_def contourA contourB crossA crossB setPointsNew_def world0_def Let_def)

text \<open>
  Claim C5 on the code: the contour of \<open>meshA\<close> does not cross the plane of \<open>selB\<close> and
  the contour of \<open>meshB\<close> does not cross the plane of \<open>selA\<close>. \<^verbatim>\<open>handleApply\<close> retries
  with the second mesh, then stores the empty array and sets \<^verbatim>\<open>aligned\<close>; the effect
  passes its guard and throws on \<^verbatim>\<open>points[0]\<close>, before any rotation is started.
\<close>

theorem both_attempts_empty_crashes:
  "handleApply exScene (Some selA) (Some selB) world0 =
     Inr (world0\<lparr>aligned := Some True, points := Some []\<rparr>) \<and>
   alignEffect (world0\<lparr>aligned := Some True, points := Some []\<rparr>) = Inl TypeError \<and>
   applyClicked exScene (Some selA) (Some selB) world0 = Inl TypeError"
proof -
  have e: "alignEffect (world0\<lparr>aligned := Some True, points := Some []\<rparr>) = Inl TypeError"
    by (simp add: alignEffect_def nth_opt_def deref_def angleToEqualizeZ_def)
  have "aligned (world0\<lparr>aligned := Some True, points := Some []\<rparr>) \<noteq> aligned world0"
    by (simp add: world0_def)
  then have "applyClicked exScene (Some selA) (Some selB) world0 = Inl TypeError"
    by (simp add: applyClicked_def handleApply_both_fail e)
  then show ?thesis using handleApply_both_fail e by simp
qed

text \<open>
  Claim C6 on the code: the plane \<open>z = 5\<close> misses the bounding box of \<open>meshA\<close>, none
  of the edges of its triangle meets the plane, no segment is extracted, \<^verbatim>\<open>getIntersectionContour\<close> returns \<^verbatim>\<open>undefined\<close>, and the
  intersection of that result with a second plane throws.
\<close>

theorem plane_miss_crashes:
  "\<not> intersectsBox (planeToLocal meshA (Plane (Vector3 0 0 1) (- 5))) (bounds (boundsTree meshA)) \<and>
   contourSegments meshA (Plane (Vector3 0 0 1) (- 5)) = [] \<and>
   getIntersectionContour meshA (Plane (Vector3 0 0 1) (- 5)) = Inr None \<and>
   getContourPlaneIntersection None (Plane (Vector3 1 0 0) (- 10)) = Inl TypeError"
proof -
  have m: "\<not> intersectsBox (planeToLocal meshA (Plane (Vector3 0 0 1) (- 5))) (bounds (boundsTree meshA))"
    by (simp add: meshA_def intersectsBox_def Let_def)
  have c: "contourSegments meshA (Plane (Vector3 0 0 1) (- 5)) = []"
    by (rule contourMiss)
  have g: "getIntersectionContour meshA (Plane (Vector3 0 0 1) (- 5)) = Inr None"
    by (simp add: getIntersectionContour_def c stitchSegments_Nil)
  have t: "getContourPlaneIntersection None (Plane (Vector3 1 0 0) (- 10)) = Inl TypeError"
    by (simp add: getContourPlaneIntersection_def)
  show ?thesis using m c g t by simp
qed

end
